theory Spec2Isabelle
  imports Complex_Main "HOL-Library.Char_ord" "HOL-Library.List_Lexorder"
begin

section \<open>Python values\<close>

text \<open>
  The data handed to a validator is parsed configuration: \<open>None\<close>, booleans, the two
  integer types of Python 2 (\<open>int\<close> and \<open>long\<close>), floats, text (\<open>basestring\<close>),
  lists and dicts.  A finite float is kept as the rational it denotes (NaN and the
  infinities are outside the model).  A dict is the list of its items in iteration
  order.
\<close>

datatype pyval =
    VNone
  | VBool bool
  | VInt int
  | VLong int
  | VFloat rat
  | VStr string
  | VList "pyval list"
  | VDict "(pyval \<times> pyval) list"

text \<open>\<open>isinstance\<close> tests.  \<open>bool\<close> is a subclass of \<open>int\<close>; \<open>long\<close> is not.\<close>

fun is_basestring :: "pyval \<Rightarrow> bool" where
  "is_basestring (VStr s) = True"
| "is_basestring v = False"

fun is_bool :: "pyval \<Rightarrow> bool" where
  "is_bool (VBool b) = True"
| "is_bool v = False"

fun is_int :: "pyval \<Rightarrow> bool" where
  "is_int (VInt i) = True"
| "is_int (VBool b) = True"
| "is_int v = False"

fun is_long :: "pyval \<Rightarrow> bool" where
  "is_long (VLong i) = True"
| "is_long v = False"

fun is_float :: "pyval \<Rightarrow> bool" where
  "is_float (VFloat q) = True"
| "is_float v = False"

fun is_list :: "pyval \<Rightarrow> bool" where
  "is_list (VList xs) = True"
| "is_list v = False"

fun is_dict :: "pyval \<Rightarrow> bool" where
  "is_dict (VDict kvs) = True"
| "is_dict v = False"

text \<open>The number a numeric value denotes; \<open>True\<close> is 1 and \<open>False\<close> is 0.\<close>

fun py_num :: "pyval \<Rightarrow> rat option" where
  "py_num (VBool b) = Some (if b then 1 else 0)"
| "py_num (VInt i) = Some (of_int i)"
| "py_num (VLong i) = Some (of_int i)"
| "py_num (VFloat q) = Some q"
| "py_num v = None"

text \<open>
  Python's \<open>==\<close>: numbers compare by value across the numeric types, text with text,
  lists element by element, dicts item by item.
\<close>

function (sequential) py_eq :: "pyval \<Rightarrow> pyval \<Rightarrow> bool"
  and py_eq_list :: "pyval list \<Rightarrow> pyval list \<Rightarrow> bool"
  and py_sub_items :: "(pyval \<times> pyval) list \<Rightarrow> (pyval \<times> pyval) list \<Rightarrow> bool"
  and py_has_item :: "pyval \<Rightarrow> pyval \<Rightarrow> (pyval \<times> pyval) list \<Rightarrow> bool"
where
  "py_eq (VList xs) (VList ys) = py_eq_list xs ys"
| "py_eq (VDict xs) (VDict ys) = (length xs = length ys \<and> py_sub_items xs ys)"
| "py_eq (VStr s) (VStr t) = (s = t)"
| "py_eq VNone VNone = True"
| "py_eq a b = (case (py_num a, py_num b) of (Some x, Some y) \<Rightarrow> x = y | _ \<Rightarrow> False)"
| "py_eq_list [] [] = True"
| "py_eq_list (x # xs) (y # ys) = (py_eq x y \<and> py_eq_list xs ys)"
| "py_eq_list xs ys = False"
| "py_sub_items [] ys = True"
| "py_sub_items ((k, v) # xs) ys = (py_has_item k v ys \<and> py_sub_items xs ys)"
| "py_has_item k v [] = False"
| "py_has_item k v ((k', v') # ys) = ((py_eq k k' \<and> py_eq v v') \<or> py_has_item k v ys)"
  by pat_completeness auto
termination
  by (relation "measure (\<lambda>x. case x of
        Inl (Inl (a, b)) \<Rightarrow> size a + size b
      | Inl (Inr (xs, ys)) \<Rightarrow> size_list size xs + size_list size ys
      | Inr (Inl (xs, ys)) \<Rightarrow>
          size_list (size_prod size size) xs + size_list (size_prod size size) ys
      | Inr (Inr (k, v, ys)) \<Rightarrow> size k + size v + size_list (size_prod size size) ys)")
    auto

text \<open>\<open>x in xs\<close> for a list \<open>xs\<close>.\<close>

definition py_in :: "pyval \<Rightarrow> pyval list \<Rightarrow> bool" where
  "py_in x xs = list_ex (\<lambda>y. py_eq y x) xs"

text \<open>\<open>xs.index(x)\<close> for an \<open>x\<close> taken from \<open>xs\<close>: the first position holding an equal value.\<close>

fun py_index :: "pyval list \<Rightarrow> pyval \<Rightarrow> nat" where
  "py_index [] x = 0"
| "py_index (y # ys) x = (if py_eq y x then 0 else Suc (py_index ys x))"

section \<open>Text helpers\<close>

text \<open>\<open>sep.join(xs)\<close>.\<close>

fun join :: "string \<Rightarrow> string list \<Rightarrow> string" where
  "join sep [] = []"
| "join sep [x] = x"
| "join sep (x # y # ys) = x @ sep @ join sep (y # ys)"

text \<open>Decimal rendering of integers (\<open>%i\<close>, and \<open>%s\<close> of an \<open>int\<close> or \<open>long\<close>).\<close>

fun show_nat :: "nat \<Rightarrow> string" where
  "show_nat n = (if n < 10 then [''0123456789'' ! n]
                 else show_nat (n div 10) @ [''0123456789'' ! (n mod 10)])"

definition show_int :: "int \<Rightarrow> string" where
  "show_int i = (if i < 0 then ''-'' @ show_nat (nat (- i)) else show_nat (nat i))"

text \<open>
  Lower-casing one ASCII character, and the test for a character being ASCII (the top
  bit of the 8-bit character is clear).
\<close>

definition lower_char :: "char \<Rightarrow> char" where
  "lower_char c =
     (case map_of (zip ''ABCDEFGHIJKLMNOPQRSTUVWXYZ'' ''abcdefghijklmnopqrstuvwxyz'') c of
        None \<Rightarrow> c | Some d \<Rightarrow> d)"

definition is_ascii :: "char \<Rightarrow> bool" where
  "is_ascii c = (\<not> digit7 c)"

section \<open>The library the validators call\<close>

text \<open>
  Functions of Python's standard library and of \<open>flexget.utils.qualities\<close> that the
  validators call but that are not part of the validator module.  They are parameters of
  the model; every theorem holds for all of them.
\<close>

record pylib =
  py_unicode :: "pyval \<Rightarrow> string"
    \<comment> \<open>text of a float, list or dict under \<open>%s\<close>\<close>
  unicode_lower :: "string \<Rightarrow> string"
    \<comment> \<open>\<open>s.lower()\<close> for text with a character outside ASCII\<close>
  re_compiles :: "string \<Rightarrow> bool"
    \<comment> \<open>\<open>re.compile(p)\<close> does not raise\<close>
  re_match :: "string \<Rightarrow> string \<Rightarrow> bool"
    \<comment> \<open>\<open>re.match(p, s)\<close> finds a match, for a pattern that compiles\<close>
  search_jinja :: "string \<Rightarrow> nat option"
    \<comment> \<open>start of the first match of the brace placeholder pattern\<close>
  search_percent :: "string \<Rightarrow> nat option"
    \<comment> \<open>start of the first match of the percent-format pattern\<close>
  dirname :: "string \<Rightarrow> string"
  expanduser :: "string \<Rightarrow> string"
  isfile :: "string \<Rightarrow> bool"
  isdir :: "string \<Rightarrow> bool"
  safe_substitute :: "string \<Rightarrow> pyval \<Rightarrow> string"
    \<comment> \<open>\<open>Template(msg).safe_substitute(key=key)\<close>\<close>
  quality_get :: "pyval \<Rightarrow> string option"
    \<comment> \<open>\<open>qualities.get(data)\<close>: the message of the \<open>ValueError\<close> it raises, if any\<close>
  quality_requirements :: "pyval \<Rightarrow> string option"
    \<comment> \<open>\<open>qualities.Requirements(data)\<close>, likewise\<close>

text \<open>
  \<open>s.lower()\<close> on text (\<open>unicode\<close>, under \<open>unicode_literals\<close>).  Text made of ASCII
  characters only is lower-cased character by character; for any other text the result
  is the library's (\<open>unicode_lower\<close>), whatever the encoding of its characters.
\<close>

definition lower :: "pylib \<Rightarrow> string \<Rightarrow> string" where
  "lower lib s = (if list_all is_ascii s then map lower_char s else unicode_lower lib s)"

text \<open>\<open>'%s' % v\<close> and \<open>unicode(v)\<close>.\<close>

fun fmt :: "pylib \<Rightarrow> pyval \<Rightarrow> string" where
  "fmt lib (VStr s) = s"
| "fmt lib VNone = ''None''"
| "fmt lib (VBool b) = (if b then ''True'' else ''False'')"
| "fmt lib (VInt i) = show_int i"
| "fmt lib (VLong i) = show_int i"
| "fmt lib v = py_unicode lib v"

section \<open>The diagnostics collector\<close>

datatype error =
    NoPathLevel
  | IndexError
  | TypeError
  | AttributeError
  | ValueError
  | NotImplementedError
  | ReError
  | UnknownValidator string
  | ChoiceLiteral

record errors =
  messages :: "string list"
  path :: "string list"
  path_level :: "int option"


definition count :: "errors \<Rightarrow> int" where
  "count e = int (length (messages e))"

definition add :: "string \<Rightarrow> errors \<Rightarrow> errors" where
  "add msg e = e\<lparr>messages := messages e @ [''[/'' @ join ''/'' (path e) @ ''] '' @ msg]\<rparr>"

text \<open>
  \<open>del xs[i:]\<close>: a negative start counts from the end, and a start outside the list is
  clamped to it.
\<close>

definition del_from :: "int \<Rightarrow> 'a list \<Rightarrow> 'a list" where
  "del_from i xs =
     (let n = int (length xs);
          start = (if i < 0 then max 0 (i + n) else min i n)
      in take (nat start) xs)"

definition back_out_errors :: "int \<Rightarrow> errors \<Rightarrow> errors" where
  "back_out_errors num e =
     (if num > 0 then e\<lparr>messages := del_from (0 - num) (messages e)\<rparr> else e)"

text \<open>
  Indexing a list of length \<open>n\<close> with \<open>i\<close>: a negative index counts from the end, and an
  index outside the list raises \<open>IndexError\<close>.
\<close>

definition list_slot :: "int \<Rightarrow> nat \<Rightarrow> nat option" where
  "list_slot i n =
     (let j = (if i < 0 then i + int n else i)
      in if 0 \<le> j \<and> j < int n then Some (nat j) else None)"

definition path_add_level :: "string \<Rightarrow> errors \<Rightarrow> errors" where
  "path_add_level v e = e\<lparr>path := path e @ [v], path_level := Some (int (length (path e)))\<rparr>"

definition path_remove_level :: "errors \<Rightarrow> error + errors" where
  "path_remove_level e =
     (case path_level e of
        None \<Rightarrow> Inl NoPathLevel
      | Some l \<Rightarrow>
          (case list_slot l (length (path e)) of
             None \<Rightarrow> Inl IndexError
           | Some j \<Rightarrow>
               Inr (e\<lparr>path := take j (path e) @ drop (Suc j) (path e),
                       path_level := Some (l - 1)\<rparr>)))"

definition path_update_value :: "string \<Rightarrow> errors \<Rightarrow> error + errors" where
  "path_update_value v e =
     (case path_level e of
        None \<Rightarrow> Inl NoPathLevel
      | Some l \<Rightarrow>
          (case list_slot l (length (path e)) of
             None \<Rightarrow> Inl IndexError
           | Some j \<Rightarrow> Inr (e\<lparr>path := (path e)[j := v]\<rparr>)))"

section \<open>Validators\<close>

text \<open>
  A validator is one node of the rule tree.  Every node carries the optional custom
  \<open>message\<close> of \<open>Validator.__init__\<close>; the other fields are the ones its class adds.
  The keys a \<open>DictValidator\<close> is configured with (\<open>reject\<close>, \<open>required_keys\<close>, \<open>valid\<close>)
  are text, as the docstring of \<open>DictValidator.accept\<close> has them, and its dicts
  \<open>reject\<close> and \<open>valid\<close> are association lists.  The parent link only locates the
  shared collector, which the model passes explicitly.
\<close>

datatype rule =
    Validator "string option"
  | RootValidator "string option" "rule list"
  | ChoiceValidator "string option" "pyval list" "string list"
  | AnyValidator "string option"
  | EqualsValidator "string option" pyval
  | NumberValidator "string option"
  | IntegerValidator "string option"
  | DecimalValidator "string option"
  | BooleanValidator "string option"
  | TextValidator "string option"
  | RegexpValidator "string option"
  | RegexpMatchValidator "string option" "string list" "string list"
  | IntervalValidator "string option" "string list" "string list"
  | FileValidator "string option"
  | PathValidator "string option" bool bool
  | UrlValidator "string option" "string list"
  | ListValidator "string option" "rule list"
  | DictValidator "string option" "(string \<times> string option) list" "rule list"
      "string list" "(rule \<times> rule) list" "(string \<times> rule list) list"
  | QualityValidator "string option"
  | QualityRequirementsValidator "string option"

text \<open>
  The fields of \<open>ChoiceValidator m valid valid_ic\<close>,
  \<open>RegexpMatchValidator m regexps reject_regexps\<close>,
  \<open>PathValidator m allow_replacement allow_missing\<close>, \<open>UrlValidator m protocols\<close> and
  \<open>DictValidator m reject any_key required_keys key_validators valid\<close> are in this
  order.
\<close>

fun name :: "rule \<Rightarrow> string" where
  "name (Validator m) = ''validator''"
| "name (RootValidator m rs) = ''root''"
| "name (ChoiceValidator m vs ics) = ''choice''"
| "name (AnyValidator m) = ''any''"
| "name (EqualsValidator m x) = ''equals''"
| "name (NumberValidator m) = ''number''"
| "name (IntegerValidator m) = ''integer''"
| "name (DecimalValidator m) = ''decimal''"
| "name (BooleanValidator m) = ''boolean''"
| "name (TextValidator m) = ''text''"
| "name (RegexpValidator m) = ''regexp''"
| "name (RegexpMatchValidator m ps rj) = ''regexp_match''"
| "name (IntervalValidator m ps rj) = ''interval''"
| "name (FileValidator m) = ''file''"
| "name (PathValidator m ar am) = ''path''"
| "name (UrlValidator m ps) = ''url''"
| "name (ListValidator m rs) = ''list''"
| "name (DictValidator m rj ak rq kvs vd) = ''dict''"
| "name (QualityValidator m) = ''quality''"
| "name (QualityRequirementsValidator m) = ''quality_requirements''"

fun message :: "rule \<Rightarrow> string option" where
  "message (Validator m) = m"
| "message (RootValidator m rs) = m"
| "message (ChoiceValidator m vs ics) = m"
| "message (AnyValidator m) = m"
| "message (EqualsValidator m x) = m"
| "message (NumberValidator m) = m"
| "message (IntegerValidator m) = m"
| "message (DecimalValidator m) = m"
| "message (BooleanValidator m) = m"
| "message (TextValidator m) = m"
| "message (RegexpValidator m) = m"
| "message (RegexpMatchValidator m ps rj) = m"
| "message (IntervalValidator m ps rj) = m"
| "message (FileValidator m) = m"
| "message (PathValidator m ar am) = m"
| "message (UrlValidator m ps) = m"
| "message (ListValidator m rs) = m"
| "message (DictValidator m rj ak rq kvs vd) = m"
| "message (QualityValidator m) = m"
| "message (QualityRequirementsValidator m) = m"

text \<open>Truth value of an optional text: \<open>None\<close> and the empty text are false.\<close>

fun truthy :: "string option \<Rightarrow> bool" where
  "truthy None = False"
| "truthy (Some s) = (s \<noteq> [])"

text \<open>
  \<open>validateable\<close>.  The base class raises \<open>NotImplementedError\<close>; the validators derived
  from \<open>TextValidator\<close> and \<open>RegexpMatchValidator\<close> inherit the method.
\<close>

fun validateable :: "rule \<Rightarrow> pyval \<Rightarrow> error + bool" where
  "validateable (Validator m) data = Inl NotImplementedError"
| "validateable (RootValidator m rs) data = Inr True"
| "validateable (ChoiceValidator m vs ics) data =
     Inr (is_basestring data \<or> is_int data \<or> is_float data)"
| "validateable (AnyValidator m) data = Inr True"
| "validateable (EqualsValidator m x) data =
     Inr (is_basestring data \<or> is_int data \<or> is_float data)"
| "validateable (NumberValidator m) data = Inr (is_int data \<or> is_float data \<or> is_long data)"
| "validateable (IntegerValidator m) data = Inr (is_int data)"
| "validateable (DecimalValidator m) data = Inr (is_float data)"
| "validateable (BooleanValidator m) data = Inr (is_bool data)"
| "validateable (TextValidator m) data = Inr (is_basestring data)"
| "validateable (RegexpValidator m) data = Inr (is_basestring data)"
| "validateable (RegexpMatchValidator m ps rj) data = Inr (is_basestring data)"
| "validateable (IntervalValidator m ps rj) data = Inr (is_basestring data)"
| "validateable (FileValidator m) data = Inr (is_basestring data)"
| "validateable (PathValidator m ar am) data = Inr (is_basestring data)"
| "validateable (UrlValidator m ps) data = Inr (is_basestring data)"
| "validateable (ListValidator m rs) data = Inr (is_list data)"
| "validateable (DictValidator m rj ak rq kvs vd) data = Inr (is_dict data)"
| "validateable (QualityValidator m) data = Inr (is_basestring data)"
| "validateable (QualityRequirementsValidator m) data = Inr (is_basestring data)"

subsection \<open>Alternative selection: \<open>Validator.validate_item\<close>\<close>

type_synonym outcome = "error + bool \<times> errors"
type_synonym vfun = "rule \<Rightarrow> pyval \<Rightarrow> errors \<Rightarrow> outcome"

text \<open>
  The first loop of \<open>validate_item\<close>; \<open>c\<close> is the count recorded on entry, and \<open>v\<close> is
  the \<open>validate\<close> method of the candidates.
\<close>

fun try_rules :: "vfun \<Rightarrow> pyval \<Rightarrow> rule list \<Rightarrow> int \<Rightarrow> errors \<Rightarrow> outcome" where
  "try_rules v item [] c e = Inr (False, e)"
| "try_rules v item (r # rs) c e =
     (case validateable r item of
        Inl x \<Rightarrow> Inl x
      | Inr applies \<Rightarrow>
          if applies then
            (case v r item e of
               Inl x \<Rightarrow> Inl x
             | Inr (ok, e1) \<Rightarrow>
                 if ok then Inr (True, back_out_errors (count e1 - c) e1)
                 else try_rules v item rs c e1)
          else try_rules v item rs c e)"

text \<open>The loop adding the custom messages of the candidates.\<close>

fun add_rule_messages :: "rule list \<Rightarrow> errors \<Rightarrow> errors" where
  "add_rule_messages [] e = e"
| "add_rule_messages (r # rs) e =
     add_rule_messages rs (if truthy (message r) then add (the (message r)) e else e)"

text \<open>\<open>', '.join(acceptable[:-2] + ['']) + ' or '.join(acceptable[-2:])\<close>\<close>

definition english_list :: "string list \<Rightarrow> string" where
  "english_list acceptable =
     join '', '' (take (length acceptable - 2) acceptable @ [[]])
     @ join '' or '' (drop (length acceptable - 2) acceptable)"

definition apostrophe :: string where
  "apostrophe = [CHR 0x27]"

definition validate_item :: "pylib \<Rightarrow> vfun \<Rightarrow> pyval \<Rightarrow> rule list \<Rightarrow> errors \<Rightarrow> outcome" where
  "validate_item lib v item rules e =
     (let c = count e in
      case try_rules v item rules c e of
        Inl x \<Rightarrow> Inl x
      | Inr (ok, e1) \<Rightarrow>
          if ok then Inr (True, e1)
          else if c = count e1 then
            (let e2 = add_rule_messages rules e1 in
             if c = count e2 then
               (let acceptable = english_list (map name rules);
                    e3 = add (''must be a `'' @ acceptable @ ''` value'') e2
                in Inr (False,
                     if is_dict item then add (''got a dict instead of '' @ acceptable) e3
                     else if is_list item then add (''got a list instead of '' @ acceptable) e3
                     else add (''value '' @ apostrophe @ fmt lib item @ apostrophe
                               @ '' is not valid '' @ acceptable) e3))
             else Inr (False, e2))
          else Inr (False, e1))"

subsection \<open>The loops of \<open>ListValidator.validate\<close> and \<open>DictValidator.validate\<close>\<close>

fun list_items ::
  "pylib \<Rightarrow> vfun \<Rightarrow> rule list \<Rightarrow> pyval list \<Rightarrow> pyval list \<Rightarrow> errors \<Rightarrow> error + errors"
where
  "list_items lib v rules data [] e = Inr e"
| "list_items lib v rules data (item # items) e =
     (case path_update_value (''list:'' @ show_nat (py_index data item)) e of
        Inl x \<Rightarrow> Inl x
      | Inr e1 \<Rightarrow>
          (case validate_item lib v item rules e1 of
             Inl x \<Rightarrow> Inl x
           | Inr (ok, e2) \<Rightarrow> list_items lib v rules data items e2))"

text \<open>\<open>key in d\<close> and \<open>d.get(key)\<close> for a dict \<open>d\<close> whose keys are text.\<close>

fun dict_get :: "(string \<times> 'a) list \<Rightarrow> pyval \<Rightarrow> 'a option" where
  "dict_get d (VStr s) = map_of d s"
| "dict_get d k = None"

text \<open>\<open>key in data\<close> for the dict being validated.\<close>

definition has_key :: "(pyval \<times> pyval) list \<Rightarrow> pyval \<Rightarrow> bool" where
  "has_key items k = list_ex (\<lambda>kv. py_eq (fst kv) k) items"

text \<open>
  The loop over \<open>key_validators\<close>: the value rule of the first pair whose key validator
  applies to the key and validates it.
\<close>

fun key_rules ::
  "vfun \<Rightarrow> pyval \<Rightarrow> (rule \<times> rule) list \<Rightarrow> errors \<Rightarrow> error + rule option \<times> errors"
where
  "key_rules v key [] e = Inr (None, e)"
| "key_rules v key ((key_validator, value_validator) # rest) e =
     (case validateable key_validator key of
        Inl x \<Rightarrow> Inl x
      | Inr applies \<Rightarrow>
          if applies then
            (case v key_validator key e of
               Inl x \<Rightarrow> Inl x
             | Inr (ok, e1) \<Rightarrow>
                 if ok then Inr (Some value_validator, e1) else key_rules v key rest e1)
          else key_rules v key rest e)"

text \<open>The rules chosen for a key that is not rejected, and the collector after choosing.\<close>

definition rules_for_key ::
  "vfun \<Rightarrow> rule list \<Rightarrow> (rule \<times> rule) list \<Rightarrow> (string \<times> rule list) list \<Rightarrow> pyval
     \<Rightarrow> errors \<Rightarrow> error + rule list \<times> errors"
where
  "rules_for_key v any_key key_validators valid key e =
     (case dict_get valid key of
        Some rs \<Rightarrow> Inr (rs, e)
      | None \<Rightarrow>
          (case key_rules v key key_validators e of
             Inl x \<Rightarrow> Inl x
           | Inr (found, e1) \<Rightarrow>
               (let rules = (case found of
                               Some value_validator \<Rightarrow> [value_validator]
                             | None \<Rightarrow> if any_key \<noteq> [] then any_key else [])
                in Inr (rules,
                     if rules \<noteq> [] then back_out_errors (count e1 - count e) e1 else e1))))"

text \<open>The body of the loop over the items of the dict.\<close>

definition dict_item ::
  "pylib \<Rightarrow> vfun \<Rightarrow> (string \<times> string option) list \<Rightarrow> rule list \<Rightarrow> (rule \<times> rule) list
     \<Rightarrow> (string \<times> rule list) list \<Rightarrow> pyval \<times> pyval \<Rightarrow> errors \<Rightarrow> error + errors"
where
  "dict_item lib v reject any_key key_validators valid kv e =
     (let key = fst kv; val = snd kv in
      case path_update_value (''dict:'' @ fmt lib key) e of
        Inl x \<Rightarrow> Inl x
      | Inr e1 \<Rightarrow>
          (case dict_get reject key of
             Some msg \<Rightarrow>
               if truthy msg then Inr (add (safe_substitute lib (the msg) key) e1)
               else Inr (add (''key '' @ apostrophe @ fmt lib key @ apostrophe
                              @ '' is forbidden here'') e1)
           | None \<Rightarrow>
               (case rules_for_key v any_key key_validators valid key e1 of
                  Inl x \<Rightarrow> Inl x
                | Inr (rules, e2) \<Rightarrow>
                    if rules = [] then
                      Inr (add (''key '' @ apostrophe @ fmt lib key @ apostrophe
                                @ '' is not recognized''
                                @ (if valid \<noteq> []
                                   then '', valid keys: '' @ join '', '' (sort (map fst valid))
                                   else [])) e2)
                    else
                      (case validate_item lib v val rules e2 of
                         Inl x \<Rightarrow> Inl x
                       | Inr (ok, e3) \<Rightarrow> Inr e3))))"

fun dict_items ::
  "pylib \<Rightarrow> vfun \<Rightarrow> (string \<times> string option) list \<Rightarrow> rule list \<Rightarrow> (rule \<times> rule) list
     \<Rightarrow> (string \<times> rule list) list \<Rightarrow> (pyval \<times> pyval) list \<Rightarrow> errors \<Rightarrow> error + errors"
where
  "dict_items lib v reject any_key key_validators valid [] e = Inr e"
| "dict_items lib v reject any_key key_validators valid (kv # items) e =
     (case dict_item lib v reject any_key key_validators valid kv e of
        Inl x \<Rightarrow> Inl x
      | Inr e1 \<Rightarrow> dict_items lib v reject any_key key_validators valid items e1)"

text \<open>The loop over \<open>required_keys\<close>.\<close>

fun check_required :: "string list \<Rightarrow> (pyval \<times> pyval) list \<Rightarrow> errors \<Rightarrow> errors" where
  "check_required [] data e = e"
| "check_required (required # rest) data e =
     check_required rest data
       (if \<not> has_key data (VStr required)
        then add (''key '' @ apostrophe @ required @ apostrophe @ '' required'') e
        else e)"

subsection \<open>The loops call \<open>validate\<close> on children only\<close>

text \<open>The validators a \<open>DictValidator\<close> holds.\<close>

definition dict_children ::
  "rule list \<Rightarrow> (rule \<times> rule) list \<Rightarrow> (string \<times> rule list) list \<Rightarrow> rule set" where
  "dict_children any_key key_validators valid =
     set any_key \<union> fst ` set key_validators \<union> snd ` set key_validators
     \<union> (\<Union>kv \<in> set valid. set (snd kv))"

lemma try_rules_cong [fundef_cong]:
  assumes "item = item'" "rules = rules'" "c = c'" "e = e'"
    and "\<And>r d s. r \<in> set rules' \<Longrightarrow> v r d s = v' r d s"
  shows "try_rules v item rules c e = try_rules v' item' rules' c' e'"
proof -
  have "try_rules v item' rules' c' s = try_rules v' item' rules' c' s" for s
    using assms(5)
  proof (induction rules' arbitrary: s)
    case Nil
    show ?case by simp
  next
    case (Cons r rs)
    have head: "v r item' s = v' r item' s" by (rule Cons.prems) simp
    have tail: "try_rules v item' rs c' t = try_rules v' item' rs c' t" for t
      by (rule Cons.IH) (simp add: Cons.prems)
    show ?case by (auto simp: head tail split: sum.splits)
  qed
  with assms(1-4) show ?thesis by simp
qed

lemma validate_item_cong [fundef_cong]:
  assumes "lib = lib'" "item = item'" "rules = rules'" "e = e'"
    and "\<And>r d s. r \<in> set rules' \<Longrightarrow> v r d s = v' r d s"
  shows "validate_item lib v item rules e = validate_item lib' v' item' rules' e'"
proof -
  have "try_rules v item' rules' c s = try_rules v' item' rules' c s" for c s
    by (rule try_rules_cong) (simp_all add: assms(5))
  with assms(1-4) show ?thesis by (simp add: validate_item_def)
qed

lemma list_items_cong [fundef_cong]:
  assumes "lib = lib'" "rules = rules'" "data = data'" "items = items'" "e = e'"
    and "\<And>r d s. r \<in> set rules' \<Longrightarrow> v r d s = v' r d s"
  shows "list_items lib v rules data items e = list_items lib' v' rules' data' items' e'"
proof -
  have step: "validate_item lib' v item rules' s = validate_item lib' v' item rules' s" for item s
    by (rule validate_item_cong) (simp_all add: assms(6))
  have "list_items lib' v rules' data' items' s = list_items lib' v' rules' data' items' s" for s
  proof (induction items' arbitrary: s)
    case Nil
    show ?case by simp
  next
    case (Cons item rest)
    show ?case
    proof (cases "path_update_value (''list:'' @ show_nat (py_index data' item)) s")
      case (Inl x)
      then show ?thesis by simp
    next
      case upd: (Inr s1)
      show ?thesis
      proof (cases "validate_item lib' v' item rules' s1")
        case (Inl x)
        with upd show ?thesis by (simp add: step)
      next
        case (Inr p)
        obtain ok s2 where p: "p = (ok, s2)" by (cases p)
        from upd Inr p show ?thesis by (simp add: step Cons.IH)
      qed
    qed
  qed
  with assms(1-5) show ?thesis by simp
qed

lemma key_rules_cong [fundef_cong]:
  assumes "key = key'" "kvs = kvs'" "e = e'"
    and "\<And>r d s. r \<in> fst ` set kvs' \<Longrightarrow> v r d s = v' r d s"
  shows "key_rules v key kvs e = key_rules v' key' kvs' e'"
proof -
  have "key_rules v key' kvs' s = key_rules v' key' kvs' s" for s
    using assms(4)
  proof (induction kvs' arbitrary: s)
    case Nil
    show ?case by simp
  next
    case (Cons p ps)
    obtain kr vr where p: "p = (kr, vr)" by (cases p)
    have head: "v kr key' s = v' kr key' s" by (rule Cons.prems) (simp add: p)
    have tail: "key_rules v key' ps t = key_rules v' key' ps t" for t
      by (rule Cons.IH) (simp add: Cons.prems)
    show ?case by (auto simp: p head tail split: sum.splits)
  qed
  with assms(1-3) show ?thesis by simp
qed

lemma key_rules_found:
  "key_rules v key kvs e = Inr (Some r, e1) \<Longrightarrow> r \<in> snd ` set kvs"
proof (induction kvs arbitrary: e)
  case Nil
  then show ?case by simp
next
  case (Cons p ps)
  obtain kr vr where p: "p = (kr, vr)" by (cases p)
  show ?case
  proof (cases "validateable kr key")
    case (Inl x)
    with Cons.prems p show ?thesis by simp
  next
    case app: (Inr applies)
    show ?thesis
    proof (cases applies)
      case False
      with Cons.prems p app have "key_rules v key ps e = Inr (Some r, e1)" by simp
      then have "r \<in> snd ` set ps" by (rule Cons.IH)
      then show ?thesis by simp
    next
      case True
      show ?thesis
      proof (cases "v kr key e")
        case (Inl x)
        with Cons.prems p app True show ?thesis by simp
      next
        case (Inr q)
        obtain ok e2 where q: "q = (ok, e2)" by (cases q)
        show ?thesis
        proof (cases ok)
          case True
          with Cons.prems p app \<open>applies\<close> Inr q show ?thesis by simp
        next
          case False
          with Cons.prems p app \<open>applies\<close> Inr q
          have "key_rules v key ps e2 = Inr (Some r, e1)" by simp
          then have "r \<in> snd ` set ps" by (rule Cons.IH)
          then show ?thesis by simp
        qed
      qed
    qed
  qed
qed

lemma dict_get_in: "dict_get valid key = Some rs \<Longrightarrow> (\<exists>k. (k, rs) \<in> set valid)"
  by (cases key) (auto dest: map_of_SomeD)

lemma rules_for_key_children:
  assumes "rules_for_key v any_key key_validators valid key e = Inr (rules, e1)"
  shows "set rules \<subseteq> dict_children any_key key_validators valid"
proof (cases "dict_get valid key")
  case (Some rs)
  with assms have "rules = rs" by (simp add: rules_for_key_def)
  moreover from Some obtain k where "(k, rs) \<in> set valid" by (auto dest: dict_get_in)
  ultimately show ?thesis by (force simp: dict_children_def)
next
  case None
  with assms obtain found e2 where kr: "key_rules v key key_validators e = Inr (found, e2)"
    and rules: "rules = (case found of Some r \<Rightarrow> [r]
                         | None \<Rightarrow> if any_key \<noteq> [] then any_key else [])"
    by (auto simp: rules_for_key_def Let_def split: sum.splits)
  show ?thesis
  proof (cases found)
    case None
    with rules show ?thesis by (auto simp: dict_children_def)
  next
    case (Some r)
    with kr have "r \<in> snd ` set key_validators" by (auto dest: key_rules_found)
    with Some rules show ?thesis by (auto simp: dict_children_def)
  qed
qed

lemma rules_for_key_cong:
  assumes "\<And>r d s. r \<in> fst ` set key_validators \<Longrightarrow> v r d s = v' r d s"
  shows "rules_for_key v any_key key_validators valid key e
         = rules_for_key v' any_key key_validators valid key e"
proof -
  have "key_rules v key key_validators s = key_rules v' key key_validators s" for s
    by (rule key_rules_cong) (simp_all add: assms)
  then show ?thesis by (simp add: rules_for_key_def split: option.splits)
qed

lemma dict_item_cong:
  assumes "\<And>r d s. r \<in> dict_children any_key key_validators valid \<Longrightarrow> v r d s = v' r d s"
  shows "dict_item lib v reject any_key key_validators valid kv e
         = dict_item lib v' reject any_key key_validators valid kv e"
proof -
  have rk: "rules_for_key v any_key key_validators valid k s
            = rules_for_key v' any_key key_validators valid k s" for k s
    by (rule rules_for_key_cong) (simp add: assms dict_children_def)
  show ?thesis
  proof (cases "path_update_value (''dict:'' @ fmt lib (fst kv)) e")
    case (Inl x)
    then show ?thesis by (simp add: dict_item_def Let_def)
  next
    case upd: (Inr e1)
    show ?thesis
    proof (cases "dict_get reject (fst kv)")
      case (Some msg)
      with upd show ?thesis by (simp add: dict_item_def Let_def)
    next
      case None
      show ?thesis
      proof (cases "rules_for_key v' any_key key_validators valid (fst kv) e1")
        case (Inl x)
        with upd None show ?thesis by (simp add: dict_item_def Let_def rk)
      next
        case (Inr p)
        obtain rules e2 where p: "p = (rules, e2)" by (cases p)
        have "validate_item lib v (snd kv) rules e2 = validate_item lib v' (snd kv) rules e2"
        proof (rule validate_item_cong)
          fix r d t
          assume "r \<in> set rules"
          with rules_for_key_children [of v' any_key key_validators valid "fst kv" e1 rules e2]
            Inr p
          have "r \<in> dict_children any_key key_validators valid" by auto
          then show "v r d t = v' r d t" by (rule assms)
        qed simp_all
        with upd None Inr p show ?thesis by (simp add: dict_item_def Let_def rk)
      qed
    qed
  qed
qed

lemma dict_items_cong [fundef_cong]:
  assumes "lib = lib'" "reject = reject'" "any_key = any_key'"
    and "key_validators = key_validators'" "valid = valid'" "items = items'" "e = e'"
    and "\<And>r d s. r \<in> dict_children any_key' key_validators' valid' \<Longrightarrow> v r d s = v' r d s"
  shows "dict_items lib v reject any_key key_validators valid items e
         = dict_items lib' v' reject' any_key' key_validators' valid' items' e'"
proof -
  have step: "dict_item lib' v reject' any_key' key_validators' valid' kv s
              = dict_item lib' v' reject' any_key' key_validators' valid' kv s" for kv s
    by (rule dict_item_cong) (rule assms(8))
  have "dict_items lib' v reject' any_key' key_validators' valid' items' s
        = dict_items lib' v' reject' any_key' key_validators' valid' items' s" for s
  proof (induction items' arbitrary: s)
    case Nil
    show ?case by simp
  next
    case (Cons kv rest)
    show ?case
    proof (cases "dict_item lib' v' reject' any_key' key_validators' valid' kv s")
      case (Inl x)
      then show ?thesis by (simp add: step)
    next
      case (Inr s1)
      then show ?thesis by (simp add: step Cons.IH)
    qed
  qed
  with assms(1-7) show ?thesis by simp
qed

lemma list_child_size: "r \<in> set rs \<Longrightarrow> size r < Suc (size_list size rs)"
  by (induction rs) auto

lemma pair_size:
  "(a, b) \<in> set kvs \<Longrightarrow>
     size a < Suc (size_list (size_prod size size) kvs)
     \<and> size b < Suc (size_list (size_prod size size) kvs)"
  by (induction kvs) auto

lemma valid_child_size:
  "(k, rs) \<in> set valid \<Longrightarrow> r \<in> set rs \<Longrightarrow>
     size r < Suc (size_list (size_prod (\<lambda>x. 0) (size_list size)) valid)"
  by (induction valid) (auto dest: list_child_size)

lemma dict_children_size:
  assumes "r \<in> dict_children any_key key_validators valid"
  shows "size r < size (DictValidator m reject any_key required_keys key_validators valid)"
proof -
  from assms consider "r \<in> set any_key"
    | b where "(r, b) \<in> set key_validators"
    | a where "(a, r) \<in> set key_validators"
    | k rs where "(k, rs) \<in> set valid" "r \<in> set rs"
    by (auto simp: dict_children_def)
  then show ?thesis
  proof cases
    case 1
    then show ?thesis using list_child_size [of r any_key] by simp
  next
    case 2
    then show ?thesis using pair_size [of r b key_validators] by simp
  next
    case 3
    then show ?thesis using pair_size [of a r key_validators] by simp
  next
    case 4
    then show ?thesis using valid_child_size [of k rs valid r] by simp
  qed
qed

subsection \<open>\<open>validate\<close>\<close>

definition backslash :: string where
  "backslash = [CHR 0x5C]"

text \<open>The pattern \<open>UrlValidator.validate\<close> builds from the accepted protocols.\<close>

definition url_regexp :: "string list \<Rightarrow> string" where
  "url_regexp protocols =
     ''('' @ join ''|'' protocols @ ''):'' @ backslash @ ''/'' @ backslash @ ''/(''
     @ backslash @ ''w+:{0,1}'' @ backslash @ ''w*@)?('' @ backslash @ ''S+)(:[0-9]+)?(''
     @ backslash @ ''/|'' @ backslash @ ''/(['' @ backslash @ ''w#!:.?+=&%@!''
     @ backslash @ ''-'' @ backslash @ ''/]))?''"

text \<open>The body of \<open>RegexpMatchValidator.validate\<close>, which \<open>IntervalValidator\<close> inherits.\<close>

definition regexp_match_validate ::
  "pylib \<Rightarrow> string option \<Rightarrow> string list \<Rightarrow> string list \<Rightarrow> pyval \<Rightarrow> errors \<Rightarrow> outcome" where
  "regexp_match_validate lib m regexps reject_regexps data e =
     (case data of
        VStr s \<Rightarrow>
          if \<not> list_ex (\<lambda>p. re_match lib p s) reject_regexps
             \<and> list_ex (\<lambda>p. re_match lib p s) regexps
          then Inr (True, e)
          else if truthy m then Inr (False, add (the m) e)
          else Inr (False, add (s @ '' does not match regexp'') e)
      | _ \<Rightarrow> Inr (False, add ''Value should be text'' e))"

text \<open>The part of the text \<open>PathValidator.validate\<close> checks.\<close>

definition checked_path :: "pylib \<Rightarrow> bool \<Rightarrow> string \<Rightarrow> string" where
  "checked_path lib allow_replacement s =
     (if allow_replacement then
        (case (case search_jinja lib s of None \<Rightarrow> search_percent lib s | Some i \<Rightarrow> Some i) of
           Some start \<Rightarrow> dirname lib (take start s)
         | None \<Rightarrow> s)
      else s)"

function validate :: "pylib \<Rightarrow> rule \<Rightarrow> pyval \<Rightarrow> errors \<Rightarrow> outcome" where
  "validate lib (Validator m) data e = Inl NotImplementedError"
| "validate lib (RootValidator m valid) data e =
     validate_item lib (validate lib) data valid e"
| "validate lib (ChoiceValidator m valid valid_ic) data e =
     (if py_in data valid then Inr (True, e)
      else if (case data of VStr s \<Rightarrow> lower lib s \<in> set valid_ic | _ \<Rightarrow> False)
      then Inr (True, e)
      else Inr (False,
             add (apostrophe @ fmt lib data @ apostrophe @ '' is not one of acceptable values: ''
                  @ join '', '' (sort (map (fmt lib) valid @ valid_ic))) e))"
| "validate lib (AnyValidator m) data e = Inr (True, e)"
| "validate lib (EqualsValidator m valid) data e = Inr (py_eq valid data, e)"
| "validate lib (NumberValidator m) data e =
     (if is_int data \<or> is_float data \<or> is_long data then Inr (True, e)
      else Inr (False, add (''value '' @ fmt lib data @ '' is not valid number'') e))"
| "validate lib (IntegerValidator m) data e =
     (if is_int data then Inr (True, e)
      else Inr (False, add (''value '' @ fmt lib data @ '' is not valid integer'') e))"
| "validate lib (DecimalValidator m) data e =
     (if is_float data then Inr (True, e)
      else Inr (False, add (''value '' @ fmt lib data @ '' is not valid decimal number'') e))"
| "validate lib (BooleanValidator m) data e =
     (if is_bool data then Inr (True, e)
      else Inr (False, add (''value '' @ fmt lib data @ '' is not valid boolean'') e))"
| "validate lib (TextValidator m) data e =
     (if is_basestring data then Inr (True, e)
      else Inr (False, add (''value '' @ fmt lib data @ '' is not valid text'') e))"
| "validate lib (RegexpValidator m) data e =
     (case data of
        VStr s \<Rightarrow>
          if re_compiles lib s then Inr (True, e)
          else Inr (False, add (s @ '' is not a valid regular expression'') e)
      | _ \<Rightarrow> Inr (False, add ''Value should be text'' e))"
| "validate lib (RegexpMatchValidator m regexps reject_regexps) data e =
     regexp_match_validate lib m regexps reject_regexps data e"
| "validate lib (IntervalValidator m regexps reject_regexps) data e =
     regexp_match_validate lib m regexps reject_regexps data e"
| "validate lib (FileValidator m) data e =
     (case data of
        VStr s \<Rightarrow>
          if \<not> isfile lib (expanduser lib s)
          then Inr (False, add (''File '' @ s @ '' does not exist'') e)
          else Inr (True, e)
      | _ \<Rightarrow> Inl AttributeError)"
| "validate lib (PathValidator m allow_replacement allow_missing) data e =
     (case data of
        VStr s \<Rightarrow>
          (let p = checked_path lib allow_replacement s in
           if \<not> allow_missing \<and> \<not> isdir lib (expanduser lib p)
           then Inr (False, add (''Path '' @ p @ '' does not exist'') e)
           else Inr (True, e))
      | _ \<Rightarrow>
          if allow_replacement then Inl TypeError
          else if \<not> allow_missing then Inl AttributeError
          else Inr (True, e))"
| "validate lib (UrlValidator m protocols) data e =
     (case data of
        VStr s \<Rightarrow>
          if \<not> re_compiles lib (url_regexp protocols) then Inl ReError
          else if re_match lib (url_regexp protocols) s then Inr (True, e)
          else Inr (False, add (''value '' @ s @ '' is not a valid url'') e)
      | _ \<Rightarrow> Inr (False, add ''expecting text'' e))"
| "validate lib (ListValidator m valid) data e =
     (case data of
        VList items \<Rightarrow>
          (let e1 = path_add_level ''?'' e;
               c = count e1
           in case list_items lib (validate lib) valid items items e1 of
                Inl x \<Rightarrow> Inl x
              | Inr e2 \<Rightarrow>
                  (case path_remove_level e2 of
                     Inl x \<Rightarrow> Inl x
                   | Inr e3 \<Rightarrow> Inr (c = count e3, e3)))
      | _ \<Rightarrow> Inr (False, add ''value must be a list'' e))"
| "validate lib (DictValidator m reject any_key required_keys key_validators valid) data e =
     (case data of
        VDict items \<Rightarrow>
          (let c = count e;
               e1 = path_add_level ''?'' e
           in case dict_items lib (validate lib) reject any_key key_validators valid items e1 of
                Inl x \<Rightarrow> Inl x
              | Inr e2 \<Rightarrow>
                  (case path_remove_level e2 of
                     Inl x \<Rightarrow> Inl x
                   | Inr e3 \<Rightarrow>
                       (let e4 = check_required required_keys items e3
                        in Inr (c = count e4, e4))))
      | _ \<Rightarrow> Inr (False, add ''value must be a dictionary'' e))"
| "validate lib (QualityValidator m) data e =
     (case quality_get lib data of
        Some msg \<Rightarrow> Inr (False, add msg e)
      | None \<Rightarrow> Inr (True, e))"
| "validate lib (QualityRequirementsValidator m) data e =
     (case quality_requirements lib data of
        Some msg \<Rightarrow>
          Inr (False, add (''`'' @ fmt lib data @ ''` is not a valid quality requirement: '' @ msg) e)
      | None \<Rightarrow> Inr (True, e))"
  by pat_completeness auto
termination
proof (relation "measure (\<lambda>(lib, r, d, e). size r)", goal_cases)
  case 1
  show ?case by simp
next
  case (2 lib m valid data e r d s)
  then show ?case using list_child_size [of r valid] by simp
next
  case (3 lib m valid data e items e1 c r d s)
  then show ?case using list_child_size [of r valid] by simp
next
  case (4 lib m reject any_key required_keys key_validators valid data e items c e1 r d s)
  then show ?case unfolding in_measure prod.case by (intro dict_children_size)
qed

section \<open>Schema synthesis\<close>

text \<open>
  A schema document: a Python dict with text keys (in insertion order), a list, a value of
  the validated data, text or a boolean.
\<close>

datatype schema_doc =
    SDict "(string \<times> schema_doc) list"
  | SList "schema_doc list"
  | SValue pyval
  | SStr string
  | SBool bool

text \<open>
  What a caller hands to \<open>any_schema\<close>: a list of schemas, or a generator expression
  over validators.  \<open>len\<close> of a generator raises \<open>TypeError\<close>.
\<close>

datatype schema_arg =
    SchemaList "schema_doc list"
  | ValidatorGenerator "rule list"

fun any_schema :: "schema_arg \<Rightarrow> error + schema_doc" where
  "any_schema (SchemaList schema_list) =
     (if length schema_list = 1 then Inr (schema_list ! 0)
      else Inr (SDict [(''anyOf'', SList schema_list)]))"
| "any_schema (ValidatorGenerator validators) = Inl TypeError"

text \<open>\<open>d[k] = v\<close> on a dict kept as an association list.\<close>

fun dict_set :: "string \<Rightarrow> 'a \<Rightarrow> (string \<times> 'a) list \<Rightarrow> (string \<times> 'a) list" where
  "dict_set k v [] = [(k, v)]"
| "dict_set k v ((k', v') # rest) =
     (if k = k' then (k, v) # rest else (k', v') # dict_set k v rest)"

text \<open>A list comprehension whose elements may raise: the first error wins.\<close>

fun collect :: "(error + 'a) list \<Rightarrow> error + 'a list" where
  "collect [] = Inr []"
| "collect (x # xs) =
     (case x of
        Inl err \<Rightarrow> Inl err
      | Inr y \<Rightarrow> (case collect xs of Inl err \<Rightarrow> Inl err | Inr ys \<Rightarrow> Inr (y # ys)))"

text \<open>The loop of \<open>DictValidator.schema\<close> filling \<open>properties\<close>.\<close>

fun schema_properties ::
  "(string \<times> rule list) list \<Rightarrow> (string \<times> schema_doc) list
     \<Rightarrow> error + (string \<times> schema_doc) list"
where
  "schema_properties [] properties = Inr properties"
| "schema_properties ((key, validators) # rest) properties =
     (if validators = [] then schema_properties rest properties
      else
        (case any_schema (ValidatorGenerator validators) of
           Inl err \<Rightarrow> Inl err
         | Inr s \<Rightarrow> schema_properties rest (dict_set key s properties)))"

text \<open>The body of \<open>RegexpMatchValidator.schema\<close>.\<close>

definition regexp_match_schema :: "string list \<Rightarrow> string list \<Rightarrow> error + schema_doc" where
  "regexp_match_schema regexps reject_regexps =
     (case any_schema
             (SchemaList (map (\<lambda>p. SDict [(''type'', SStr ''string''), (''pattern'', SStr p)])
                            regexps)) of
        Inl err \<Rightarrow> Inl err
      | Inr s \<Rightarrow>
          if reject_regexps \<noteq> [] then
            (case any_schema
                    (SchemaList (map (\<lambda>p. SDict [(''pattern'', SStr p)]) reject_regexps)) of
               Inl err \<Rightarrow> Inl err
             | Inr n \<Rightarrow>
                 (case s of
                    SDict d \<Rightarrow> Inr (SDict (dict_set ''not'' n d))
                  | _ \<Rightarrow> Inl TypeError))
          else Inr s)"

fun schema :: "rule \<Rightarrow> error + schema_doc" where
  "schema (Validator m) = Inl AttributeError"
| "schema (RootValidator m valid) =
     (case collect (map schema valid) of
        Inl err \<Rightarrow> Inl err
      | Inr l \<Rightarrow> any_schema (SchemaList l))"
| "schema (ChoiceValidator m valid valid_ic) =
     Inr (SDict [(''enum'', SList (map SValue (valid @ map VStr valid_ic)))])"
| "schema (AnyValidator m) = Inr (SDict [])"
| "schema (EqualsValidator m valid) = Inr (SDict [(''enum'', SList [SValue valid])])"
| "schema (NumberValidator m) = Inr (SDict [(''type'', SStr ''number'')])"
| "schema (IntegerValidator m) = Inr (SDict [(''type'', SStr ''integer'')])"
| "schema (DecimalValidator m) = Inr (SDict [(''type'', SStr ''number'')])"
| "schema (BooleanValidator m) = Inr (SDict [(''type'', SStr ''boolean'')])"
| "schema (TextValidator m) = Inr (SDict [(''type'', SStr ''string'')])"
| "schema (RegexpValidator m) =
     Inr (SDict [(''type'', SStr ''string''), (''format'', SStr ''regex'')])"
| "schema (RegexpMatchValidator m regexps reject_regexps) =
     regexp_match_schema regexps reject_regexps"
| "schema (IntervalValidator m regexps reject_regexps) =
     regexp_match_schema regexps reject_regexps"
| "schema (FileValidator m) =
     Inr (SDict [(''type'', SStr ''string''), (''format'', SStr ''file'')])"
| "schema (PathValidator m allow_replacement allow_missing) =
     Inr (SDict [(''type'', SStr ''string''), (''format'', SStr ''path'')])"
| "schema (UrlValidator m protocols) =
     Inr (SDict [(''type'', SStr ''string''), (''format'', SStr ''uri'')])"
| "schema (ListValidator m valid) =
     (case collect (map schema valid) of
        Inl err \<Rightarrow> Inl err
      | Inr l \<Rightarrow>
          (case any_schema (SchemaList l) of
             Inl err \<Rightarrow> Inl err
           | Inr items \<Rightarrow> Inr (SDict [(''type'', SStr ''array''), (''items'', items)])))"
| "schema (DictValidator m reject any_key required_keys key_validators valid) =
     (case schema_properties valid [] of
        Inl err \<Rightarrow> Inl err
      | Inr properties \<Rightarrow>
          (let s1 = [(''type'', SStr ''object''), (''properties'', SDict properties)];
               s2 = (if required_keys \<noteq> []
                     then dict_set ''required'' (SList (map SStr required_keys)) s1
                     else s1)
           in if any_key \<noteq> [] then
                (case collect (map schema any_key) of
                   Inl err \<Rightarrow> Inl err
                 | Inr l \<Rightarrow>
                     (case any_schema (SchemaList l) of
                        Inl err \<Rightarrow> Inl err
                      | Inr a \<Rightarrow> Inr (SDict (dict_set ''additionalProperties'' a s2))))
              else Inr (SDict (dict_set ''additionalProperties'' (SBool False) s2))))"
| "schema (QualityValidator m) =
     Inr (SDict [(''type'', SStr ''string''), (''format'', SStr ''quality'')])"
| "schema (QualityRequirementsValidator m) =
     Inr (SDict [(''type'', SStr ''string''), (''format'', SStr ''qualityRequirements'')])"

section \<open>Construction\<close>

text \<open>
  The instance each registered class builds when called without keyword arguments.
  \<open>Validator.__init__\<close> leaves \<open>valid\<close> an empty list, also for \<open>equals\<close>.
\<close>

definition interval_regexp :: string where
  "interval_regexp = ''^'' @ backslash @ ''d+ (second|minute|hour|day|week)s?$''"

definition interval_message :: string where
  "interval_message =
     ''should be in format '' @ apostrophe @ ''x (seconds|minutes|hours|days|weeks)''
     @ apostrophe"

definition registry :: "(string \<times> rule) list" where
  "registry =
     [(''validator'', Validator None),
      (''root'', RootValidator None []),
      (''choice'', ChoiceValidator None [] []),
      (''any'', AnyValidator None),
      (''equals'', EqualsValidator None (VList [])),
      (''number'', NumberValidator None),
      (''integer'', IntegerValidator None),
      (''decimal'', DecimalValidator None),
      (''boolean'', BooleanValidator None),
      (''text'', TextValidator None),
      (''regexp'', RegexpValidator None),
      (''regexp_match'', RegexpMatchValidator None [] []),
      (''interval'', IntervalValidator (Some interval_message) [interval_regexp] []),
      (''file'', FileValidator None),
      (''path'', PathValidator None False False),
      (''url'', UrlValidator None [''ftp'', ''http'', ''https'', ''file'']),
      (''list'', ListValidator None []),
      (''dict'', DictValidator None [] [] [] [] []),
      (''quality'', QualityValidator None),
      (''quality_requirements'', QualityRequirementsValidator None)]"

definition factory :: "string \<Rightarrow> error + rule" where
  "factory nm =
     (case map_of registry nm of
        None \<Rightarrow> Inl (UnknownValidator nm)
      | Some r \<Rightarrow> Inr r)"

text \<open>
  \<open>get_validator\<close>: the child named by a registered kind, or an instance already built.
  The model returns the updated parent from every \<open>accept\<close>, where the source mutates
  the parent and returns the child.
\<close>

datatype child = Kind string | Instance rule

fun get_validator :: "child \<Rightarrow> error + rule" where
  "get_validator (Kind nm) = factory nm"
| "get_validator (Instance r) = Inr r"

text \<open>\<open>ChoiceValidator.accept\<close> and \<open>accept_choices\<close>.\<close>

fun choice_accept :: "pylib \<Rightarrow> pyval \<Rightarrow> bool \<Rightarrow> rule \<Rightarrow> error + rule" where
  "choice_accept lib v ignore_case (ChoiceValidator m valid valid_ic) =
     (if \<not> (is_basestring v \<or> is_int v \<or> is_float v) then Inl ChoiceLiteral
      else
        (case v of
           VStr s \<Rightarrow>
             if ignore_case then Inr (ChoiceValidator m valid (valid_ic @ [lower lib s]))
             else Inr (ChoiceValidator m (valid @ [v]) valid_ic)
         | _ \<Rightarrow> Inr (ChoiceValidator m (valid @ [v]) valid_ic)))"
| "choice_accept lib v ignore_case r = Inl AttributeError"

fun accept_choices :: "pylib \<Rightarrow> pyval list \<Rightarrow> bool \<Rightarrow> rule \<Rightarrow> error + rule" where
  "accept_choices lib [] ignore_case r = Inr r"
| "accept_choices lib (v # vs) ignore_case r =
     (case choice_accept lib v ignore_case r of
        Inl err \<Rightarrow> Inl err
      | Inr r' \<Rightarrow> accept_choices lib vs ignore_case r')"

text \<open>\<open>RootValidator.accept\<close> and \<open>ListValidator.accept\<close>.\<close>

fun accept :: "child \<Rightarrow> rule \<Rightarrow> error + rule" where
  "accept c (RootValidator m valid) =
     (case get_validator c of Inl err \<Rightarrow> Inl err | Inr v \<Rightarrow> Inr (RootValidator m (valid @ [v])))"
| "accept c (ListValidator m valid) =
     (case get_validator c of Inl err \<Rightarrow> Inl err | Inr v \<Rightarrow> Inr (ListValidator m (valid @ [v])))"
| "accept c r = Inl AttributeError"

text \<open>\<open>valid.setdefault(key, []).append(v)\<close>\<close>

fun setdefault_append :: "string \<Rightarrow> 'a \<Rightarrow> (string \<times> 'a list) list \<Rightarrow> (string \<times> 'a list) list" where
  "setdefault_append k v [] = [(k, [v])]"
| "setdefault_append k v ((k', vs) # rest) =
     (if k = k' then (k', vs @ [v]) # rest else (k', vs) # setdefault_append k v rest)"

text \<open>\<open>DictValidator.require_key\<close>, \<open>accept\<close>, \<open>reject_key\<close> and \<open>accept_any_key\<close>.\<close>

definition require_key :: "string \<Rightarrow> string list \<Rightarrow> string list" where
  "require_key key required_keys =
     (if key \<notin> set required_keys then required_keys @ [key] else required_keys)"

fun dict_accept :: "child \<Rightarrow> string \<Rightarrow> bool \<Rightarrow> rule \<Rightarrow> error + rule" where
  "dict_accept c key required (DictValidator m reject any_key required_keys key_validators valid) =
     (if key = [] then Inl ValueError
      else
        (let required_keys' = (if required then require_key key required_keys else required_keys)
         in case get_validator c of
              Inl err \<Rightarrow> Inl err
            | Inr v \<Rightarrow>
                Inr (DictValidator m reject any_key required_keys' key_validators
                       (setdefault_append key v valid))))"
| "dict_accept c key required r = Inl AttributeError"

fun reject_key :: "string \<Rightarrow> string option \<Rightarrow> rule \<Rightarrow> error + rule" where
  "reject_key key msg (DictValidator m reject any_key required_keys key_validators valid) =
     Inr (DictValidator m (dict_set key msg reject) any_key required_keys key_validators valid)"
| "reject_key key msg r = Inl AttributeError"

fun accept_any_key :: "child \<Rightarrow> rule \<Rightarrow> error + rule" where
  "accept_any_key c (DictValidator m reject any_key required_keys key_validators valid) =
     (case get_validator c of
        Inl err \<Rightarrow> Inl err
      | Inr v \<Rightarrow> Inr (DictValidator m reject (any_key @ [v]) required_keys key_validators valid))"
| "accept_any_key c r = Inl AttributeError"

subsection \<open>Sequences of collector calls\<close>

text \<open>
  The methods of the collector as calls, run in order on a collector; a call that raises
  ends the run.  \<open>depth_after cs d\<close> is the nesting depth after the calls \<open>cs\<close> started
  at depth \<open>d\<close>, defined when every \<open>path_update_value\<close> and \<open>path_remove_level\<close> of
  \<open>cs\<close> comes inside an open segment; the calls are balanced when they come back to the
  depth they started at.
\<close>

datatype call =
    PathAddLevel string
  | PathUpdateValue string
  | PathRemoveLevel
  | Add string
  | BackOutErrors int

fun run_call :: "call \<Rightarrow> errors \<Rightarrow> error + errors" where
  "run_call (PathAddLevel v) e = Inr (path_add_level v e)"
| "run_call (PathUpdateValue v) e = path_update_value v e"
| "run_call PathRemoveLevel e = path_remove_level e"
| "run_call (Add msg) e = Inr (add msg e)"
| "run_call (BackOutErrors num) e = Inr (back_out_errors num e)"

fun run_calls :: "call list \<Rightarrow> errors \<Rightarrow> error + errors" where
  "run_calls [] e = Inr e"
| "run_calls (c # cs) e =
     (case run_call c e of Inl err \<Rightarrow> Inl err | Inr e1 \<Rightarrow> run_calls cs e1)"

fun depth_after :: "call list \<Rightarrow> nat \<Rightarrow> nat option" where
  "depth_after [] d = Some d"
| "depth_after (PathAddLevel v # cs) d = depth_after cs (Suc d)"
| "depth_after (PathUpdateValue v # cs) d = (if d = 0 then None else depth_after cs d)"
| "depth_after (PathRemoveLevel # cs) d = (if d = 0 then None else depth_after cs (d - 1))"
| "depth_after (Add msg # cs) d = depth_after cs d"
| "depth_after (BackOutErrors num # cs) d = depth_after cs d"

text \<open>
  A collector at nesting depth \<open>d\<close>: the path has \<open>d\<close> slots and the marker is \<open>d - 1\<close>;
  at depth 0 the marker is still unset, or is \<open>-1\<close> once a segment has been closed.  The
  messages are arbitrary.
\<close>

definition marker_ok :: "nat \<Rightarrow> errors \<Rightarrow> bool" where
  "marker_ok d e \<longleftrightarrow>
     length (path e) = d
     \<and> (if d = 0 then path_level e = None \<or> path_level e = Some (- 1)
         else path_level e = Some (int d - 1))"

subsection \<open>What a call may change in the collector\<close>

text \<open>
  \<open>grows e e'\<close>: \<open>e'\<close> has the path of \<open>e\<close>, its messages extended at the end, and its
  marker either unchanged or pointing at the last slot of the path.  \<open>opened e\<close>: the
  marker points at the last slot of a non-empty path, as it does inside the loop of a
  list or dict validator.  \<open>inside e e'\<close>: as \<open>grows\<close>, but the last slot of the path may
  have been rewritten and the marker is unchanged.
\<close>

definition grows :: "errors \<Rightarrow> errors \<Rightarrow> bool" where
  "grows e e' \<longleftrightarrow>
     path e' = path e
     \<and> (\<exists>new. messages e' = messages e @ new)
     \<and> (path_level e' = path_level e \<or> path_level e' = Some (int (length (path e)) - 1))"

definition opened :: "errors \<Rightarrow> bool" where
  "opened e \<longleftrightarrow> path e \<noteq> [] \<and> path_level e = Some (int (length (path e)) - 1)"

definition inside :: "errors \<Rightarrow> errors \<Rightarrow> bool" where
  "inside e e' \<longleftrightarrow>
     length (path e') = length (path e)
     \<and> butlast (path e') = butlast (path e)
     \<and> (\<exists>new. messages e' = messages e @ new)
     \<and> path_level e' = path_level e"

section \<open>The diagnostics collector: rollback\<close>

lemma del_from_neg:
  "0 < n \<Longrightarrow> del_from (- n) xs = take (length xs - nat n) xs"
  by (auto simp: del_from_def Let_def max_def nat_diff_distrib')

text \<open>
  Claim C10.  \<open>back_out_errors n\<close> with \<open>n \<le> 0\<close> returns the collector unchanged.  With
  \<open>0 < n \<le> count\<close> it removes exactly the last \<open>n\<close> messages: the message list becomes
  its own prefix of length \<open>count - n\<close>, so every earlier message stays at its position,
  and the path and the marker are untouched.
\<close>

theorem back_out_errors_frame:
  "(num \<le> 0 \<longrightarrow> back_out_errors num e = e)
   \<and> (0 < num \<and> num \<le> count e \<longrightarrow>
        messages (back_out_errors num e) = take (length (messages e) - nat num) (messages e)
        \<and> length (messages (back_out_errors num e)) = length (messages e) - nat num
        \<and> (\<forall>i < length (messages e) - nat num.
              messages (back_out_errors num e) ! i = messages e ! i)
        \<and> path (back_out_errors num e) = path e
        \<and> path_level (back_out_errors num e) = path_level e)"
  by (auto simp: back_out_errors_def del_from_neg count_def)

theorem back_out_errors_frame_witness:
  "back_out_errors 0 \<lparr>messages = [''a'', ''b'', ''c''], path = [], path_level = None\<rparr>
     = \<lparr>messages = [''a'', ''b'', ''c''], path = [], path_level = None\<rparr>
   \<and> messages (back_out_errors 2 \<lparr>messages = [''a'', ''b'', ''c''], path = [], path_level = None\<rparr>)
     = [''a'']"
  using back_out_errors_frame [of 0 "\<lparr>messages = [''a'', ''b'', ''c''], path = [], path_level = None\<rparr>"]
    back_out_errors_frame [of 2 "\<lparr>messages = [''a'', ''b'', ''c''], path = [], path_level = None\<rparr>"]
  by (simp add: count_def)

section \<open>The schema of a dict validator\<close>

lemma schema_properties_raises:
  "(k, vs) \<in> set valid \<Longrightarrow> vs \<noteq> [] \<Longrightarrow> schema_properties valid props = Inl TypeError"
  by (induction valid props rule: schema_properties.induct) auto

lemma dict_schema_raises:
  "(k, vs) \<in> set valid \<Longrightarrow> vs \<noteq> []
     \<Longrightarrow> schema (DictValidator m reject any_key required_keys key_validators valid)
           = Inl TypeError"
  by (simp add: schema_properties_raises)

lemma dict_schema_no_explicit_keys:
  "schema (DictValidator m reject [] required_keys key_validators [])
     = Inr (SDict ([(''type'', SStr ''object''), (''properties'', SDict [])]
                   @ (if required_keys \<noteq> [] then [(''required'', SList (map SStr required_keys))]
                      else [])
                   @ [(''additionalProperties'', SBool False)]))"
  by simp

text \<open>
  Claim C6 fails on the code.  \<open>DictValidator.schema\<close> hands \<open>any_schema\<close> a generator
  over the validators of a key (not the list of their schemas, as the catch-all branch
  and the other composite validators do), and \<open>any_schema\<close> takes \<open>len\<close> of its
  argument: a dict validator built by \<open>factory('dict')\<close> and \<open>accept('text', key='a')\<close>
  raises \<open>TypeError\<close> from \<open>schema()\<close> instead of returning a document whose
  \<open>properties\<close> maps \<open>a\<close> to the schema of \<open>text\<close>.
\<close>

theorem dict_schema_explicit_key_raises:
  "(case factory ''dict'' of Inl err \<Rightarrow> Inl err
    | Inr r \<Rightarrow> dict_accept (Kind ''text'') ''a'' False r)
     = Inr (DictValidator None [] [] [] [] [(''a'', [TextValidator None])])
   \<and> schema (DictValidator None [] [] [] [] [(''a'', [TextValidator None])]) = Inl TypeError
   \<and> schema (TextValidator None) = Inr (SDict [(''type'', SStr ''string'')])"
  by (simp add: factory_def registry_def)

section \<open>Validation only appends diagnostics\<close>

lemma grows_refl [simp]: "grows e e"
  by (simp add: grows_def)

lemma grows_trans: "grows a b \<Longrightarrow> grows b c \<Longrightarrow> grows a c"
  by (auto simp: grows_def)

lemma grows_add [simp]: "grows e (add msg e)"
  by (simp add: grows_def add_def)

lemma grows_add_trans: "grows a b \<Longrightarrow> grows a (add msg b)"
  by (rule grows_trans [of a b]) simp_all

lemma grows_count: "grows e e' \<Longrightarrow> count e \<le> count e'"
  by (auto simp: grows_def count_def)

lemma count_add [simp]: "count (add msg e) = count e + 1"
  by (simp add: count_def add_def)

lemma grows_messages_eq:
  "grows e e' \<Longrightarrow> count e = count e' \<Longrightarrow> messages e' = messages e"
  by (auto simp: grows_def count_def)

lemma back_out_to_start:
  assumes "grows e0 e1"
  shows "messages (back_out_errors (count e1 - count e0) e1) = messages e0"
    and "path (back_out_errors (count e1 - count e0) e1) = path e1"
    and "path_level (back_out_errors (count e1 - count e0) e1) = path_level e1"
proof -
  from assms obtain new where new: "messages e1 = messages e0 @ new"
    by (auto simp: grows_def)
  show "messages (back_out_errors (count e1 - count e0) e1) = messages e0"
    using new by (cases "new = []") (simp_all add: back_out_errors_def count_def del_from_neg)
  show "path (back_out_errors (count e1 - count e0) e1) = path e1"
    by (simp add: back_out_errors_def)
  show "path_level (back_out_errors (count e1 - count e0) e1) = path_level e1"
    by (simp add: back_out_errors_def)
qed

lemma grows_back_out:
  assumes "grows e0 e1"
  shows "grows e0 (back_out_errors (count e1 - count e0) e1)"
  using assms back_out_to_start [OF assms] by (simp add: grows_def)

lemma add_rule_messages_grows: "grows e (add_rule_messages rules e)"
proof (induction rules arbitrary: e)
  case Nil
  show ?case by simp
next
  case (Cons r rs)
  show ?case
  proof (cases "truthy (message r)")
    case True
    have "grows (add (the (message r)) e) (add_rule_messages rs (add (the (message r)) e))"
      by (rule Cons.IH)
    with True show ?thesis by (simp add: grows_trans [OF grows_add])
  next
    case False
    with Cons.IH [of e] show ?thesis by simp
  qed
qed

lemma try_rules_grows:
  assumes v: "\<And>r s b s'. r \<in> set rules \<Longrightarrow> v r item s = Inr (b, s') \<Longrightarrow> grows s s'"
    and "grows e0 e"
    and "try_rules v item rules (count e0) e = Inr (ok, e')"
  shows "grows e0 e' \<and> (ok \<longrightarrow> messages e' = messages e0)"
  using assms
proof (induction rules arbitrary: e)
  case Nil
  then show ?case by simp
next
  case (Cons r rs)
  have v': "grows s s'" if "r' \<in> set rs" "v r' item s = Inr (b, s')" for r' s b s'
    using Cons.prems(1) [of r' s b s'] that by simp
  show ?case
  proof (cases "validateable r item")
    case (Inl x)
    with Cons.prems(3) show ?thesis by simp
  next
    case app: (Inr applies)
    show ?thesis
    proof (cases applies)
      case False
      with app Cons.prems(3) have "try_rules v item rs (count e0) e = Inr (ok, e')" by simp
      from Cons.IH [OF v' Cons.prems(2) this] show ?thesis .
    next
      case True
      show ?thesis
      proof (cases "v r item e")
        case (Inl x)
        with app True Cons.prems(3) show ?thesis by simp
      next
        case (Inr p)
        obtain b e1 where p: "p = (b, e1)" by (cases p)
        have "grows e e1" using Cons.prems(1) [of r e b e1] Inr p by simp
        with Cons.prems(2) have g: "grows e0 e1" by (rule grows_trans)
        show ?thesis
        proof (cases b)
          case True
          with app \<open>applies\<close> Inr p Cons.prems(3)
          have "ok" and "e' = back_out_errors (count e1 - count e0) e1" by simp_all
          with grows_back_out [OF g] back_out_to_start(1) [OF g] show ?thesis by simp
        next
          case False
          with app \<open>applies\<close> Inr p Cons.prems(3)
          have "try_rules v item rs (count e0) e1 = Inr (ok, e')" by simp
          from Cons.IH [OF v' g this] show ?thesis .
        qed
      qed
    qed
  qed
qed

lemma validate_item_grows:
  assumes v: "\<And>r s b s'. r \<in> set rules \<Longrightarrow> v r item s = Inr (b, s') \<Longrightarrow> grows s s'"
    and run: "validate_item lib v item rules e = Inr (ok, e')"
  shows "grows e e' \<and> (ok \<longrightarrow> messages e' = messages e) \<and> (\<not> ok \<longrightarrow> count e < count e')"
proof (cases "try_rules v item rules (count e) e")
  case (Inl x)
  with run show ?thesis by (simp add: validate_item_def)
next
  case (Inr p)
  obtain b e1 where p: "p = (b, e1)" by (cases p)
  from try_rules_grows [OF v grows_refl] Inr p
  have g: "grows e e1" and same: "b \<longrightarrow> messages e1 = messages e" by auto
  show ?thesis
  proof (cases b)
    case True
    with run Inr p have "ok" "e' = e1" by (simp_all add: validate_item_def)
    with g same True show ?thesis by simp
  next
    case False
    note nb = this
    show ?thesis
    proof (cases "count e = count e1")
      case False
      with nb run Inr p have "\<not> ok" "e' = e1" by (simp_all add: validate_item_def)
      with g False grows_count [OF g] show ?thesis by simp
    next
      case True
      let ?e2 = "add_rule_messages rules e1"
      have g2: "grows e ?e2" by (rule grows_trans [OF g add_rule_messages_grows])
      show ?thesis
      proof (cases "count e = count ?e2")
        case False
        with nb True run Inr p have "\<not> ok" "e' = ?e2"
          by (simp_all add: validate_item_def Let_def)
        with g2 False grows_count [OF g2] show ?thesis by simp
      next
        case c2: True
        from nb True c2 run Inr p obtain m1 m2 where
          "\<not> ok" and e': "e' = add m2 (add m1 ?e2)"
          by (auto simp: validate_item_def Let_def split: if_splits)
        have "grows e e'" unfolding e' by (intro grows_add_trans g2)
        moreover have "count e < count e'" using c2 by (simp add: e')
        ultimately show ?thesis using \<open>\<not> ok\<close> by simp
      qed
    qed
  qed
qed

section \<open>The diagnostics collector: the path marker\<close>

lemma marker_ok_add_level: "marker_ok d e \<Longrightarrow> marker_ok (Suc d) (path_add_level v e)"
  by (auto simp: marker_ok_def path_add_level_def)

lemma marker_ok_add_message [simp]: "marker_ok d (add msg e) = marker_ok d e"
  by (simp add: marker_ok_def add_def)

lemma marker_ok_back_out [simp]: "marker_ok d (back_out_errors num e) = marker_ok d e"
  by (simp add: marker_ok_def back_out_errors_def)

lemma marker_ok_update:
  "marker_ok (Suc d) e \<Longrightarrow> \<exists>e1. path_update_value v e = Inr e1 \<and> marker_ok (Suc d) e1"
  by (auto simp: marker_ok_def path_update_value_def list_slot_def Let_def)

lemma marker_ok_remove:
  "marker_ok (Suc d) e \<Longrightarrow>
     path_remove_level e
       = Inr (e\<lparr>path := take d (path e) @ drop (Suc d) (path e), path_level := Some (int d - 1)\<rparr>)
     \<and> marker_ok d (e\<lparr>path := take d (path e) @ drop (Suc d) (path e),
                      path_level := Some (int d - 1)\<rparr>)"
  by (auto simp: marker_ok_def path_remove_level_def list_slot_def Let_def)

lemma marker_ok_closed:
  "marker_ok 0 e \<Longrightarrow>
     path_remove_level e = Inl (if path_level e = None then NoPathLevel else IndexError)"
  by (auto simp: marker_ok_def path_remove_level_def list_slot_def Let_def)

lemma run_calls_marker:
  "marker_ok d0 e0 \<Longrightarrow> depth_after cs d0 = Some d
     \<Longrightarrow> \<exists>e. run_calls cs e0 = Inr e \<and> marker_ok d e"
proof (induction cs arbitrary: d0 e0)
  case Nil
  then show ?case by simp
next
  case (Cons c cs)
  show ?case
  proof (cases c)
    case (PathAddLevel v)
    with Cons.prems have "depth_after cs (Suc d0) = Some d" by simp
    from Cons.IH [OF marker_ok_add_level [OF Cons.prems(1)] this] PathAddLevel
    show ?thesis by simp
  next
    case (PathUpdateValue v)
    with Cons.prems obtain k where k: "d0 = Suc k" and rest: "depth_after cs d0 = Some d"
      by (cases d0) (auto split: if_splits)
    from marker_ok_update [of k e0 v] Cons.prems(1) k
    obtain e1 where e1: "path_update_value v e0 = Inr e1" "marker_ok d0 e1" by auto
    from Cons.IH [OF e1(2) rest] e1(1) PathUpdateValue show ?thesis by simp
  next
    case PathRemoveLevel
    with Cons.prems obtain k where k: "d0 = Suc k" and rest: "depth_after cs k = Some d"
      by (cases d0) (auto split: if_splits)
    let ?e1 = "e0\<lparr>path := take k (path e0) @ drop (Suc k) (path e0),
                   path_level := Some (int k - 1)\<rparr>"
    from marker_ok_remove [of k e0] Cons.prems(1) k
    have e1: "path_remove_level e0 = Inr ?e1" "marker_ok k ?e1" by auto
    from Cons.IH [OF e1(2) rest] e1(1) PathRemoveLevel show ?thesis by simp
  next
    case (Add msg)
    with Cons.prems have ok: "marker_ok d0 (add msg e0)" and rest: "depth_after cs d0 = Some d"
      by simp_all
    from Cons.IH [OF ok rest] Add show ?thesis by simp
  next
    case (BackOutErrors num)
    with Cons.prems have ok: "marker_ok d0 (back_out_errors num e0)"
      and rest: "depth_after cs d0 = Some d" by simp_all
    from Cons.IH [OF ok rest] BackOutErrors show ?thesis by simp
  qed
qed

text \<open>
  Claim C5.  Take any collector \<open>e0\<close> at any nesting depth \<open>d0\<close>, holding any messages
  (\<open>d0 = 0\<close>: no segment open, as for a fresh collector or one whose segments were all
  closed), and make any properly nested sequence of calls of its methods, the path
  calls mixed with \<open>add\<close> and \<open>back_out_errors\<close>; it runs without raising.  If the
  calls leave no marker open (depth 0), a further \<open>path_remove_level\<close> raises and returns
  no collector: \<open>Exception('no path level')\<close> while the marker was never set, and
  \<open>IndexError\<close> from \<open>del\<close> on the empty path once it is \<open>-1\<close>.  If a marker is open
  (depth \<open>d > 0\<close>), \<open>path_remove_level\<close> returns normally the collector with the slot
  the marker points at removed from the path, the marker decremented and the messages
  as they were.
\<close>

theorem path_remove_level_after_calls:
  assumes "marker_ok d0 e0" and "depth_after cs d0 = Some d"
  shows "\<exists>e. run_calls cs e0 = Inr e
           \<and> (d = 0 \<longrightarrow>
                path_remove_level e
                  = Inl (if path_level e = None then NoPathLevel else IndexError))
           \<and> (0 < d \<longrightarrow>
                (\<exists>l. path_level e = Some l \<and> 0 \<le> l \<and> nat l < length (path e)
                   \<and> path_remove_level e
                       = Inr \<lparr>messages = messages e,
                              path = take (nat l) (path e) @ drop (Suc (nat l)) (path e),
                              path_level = Some (l - 1)\<rparr>))"
proof -
  from run_calls_marker [OF assms]
  obtain e where e: "run_calls cs e0 = Inr e" "marker_ok d e" by auto
  show ?thesis
  proof (cases d)
    case 0
    with e marker_ok_closed [of e] show ?thesis by auto
  next
    case (Suc k)
    with e(2) have lvl: "path_level e = Some (int k)" "length (path e) = Suc k"
      by (auto simp: marker_ok_def)
    from marker_ok_remove [of k e] e(2) Suc
    have "path_remove_level e
            = Inr (e\<lparr>path := take k (path e) @ drop (Suc k) (path e),
                     path_level := Some (int k - 1)\<rparr>)" by simp
    with e(1) lvl Suc show ?thesis by auto
  qed
qed

theorem path_remove_level_after_calls_witness:
  "marker_ok 0 \<lparr>messages = [''m''], path = [], path_level = None\<rparr>
   \<and> depth_after [PathAddLevel ''?'', PathUpdateValue ''list:0'', Add ''x'', PathRemoveLevel] 0
       = Some 0
   \<and> run_calls [PathAddLevel ''?'', PathUpdateValue ''list:0'', Add ''x'', PathRemoveLevel]
         \<lparr>messages = [''m''], path = [], path_level = None\<rparr>
       = Inr \<lparr>messages = [''m'', ''[/list:0] x''], path = [], path_level = Some (- 1)\<rparr>
   \<and> path_remove_level \<lparr>messages = [''m'', ''[/list:0] x''], path = [], path_level = Some (- 1)\<rparr>
       = Inl IndexError
   \<and> path_remove_level \<lparr>messages = [''m''], path = [], path_level = None\<rparr> = Inl NoPathLevel
   \<and> depth_after [PathAddLevel ''?'', PathUpdateValue ''list:0'', Add ''x''] 0 = Some 1
   \<and> path_remove_level \<lparr>messages = [''m'', ''[/list:0] x''], path = [''list:0''],
                          path_level = Some 0\<rparr>
       = Inr \<lparr>messages = [''m'', ''[/list:0] x''], path = [], path_level = Some (- 1)\<rparr>"
  using path_remove_level_after_calls
          [of 0 "\<lparr>messages = [''m''], path = [], path_level = None\<rparr>"
              "[PathAddLevel ''?'', PathUpdateValue ''list:0'', Add ''x'', PathRemoveLevel]" 0]
        path_remove_level_after_calls
          [of 0 "\<lparr>messages = [''m''], path = [], path_level = None\<rparr>" "[]" 0]
        path_remove_level_after_calls
          [of 0 "\<lparr>messages = [''m''], path = [], path_level = None\<rparr>"
              "[PathAddLevel ''?'', PathUpdateValue ''list:0'', Add ''x'']" 1]
  by (simp add: marker_ok_def path_add_level_def path_update_value_def path_remove_level_def
        list_slot_def add_def)

section \<open>Enumerated choice\<close>

lemma lower_ascii: "list_all is_ascii s \<Longrightarrow> lower lib s = map lower_char s"
  by (simp add: lower_def)

lemma lower_Foo [simp]:
  "lower lib ''foo'' = ''foo''" "lower lib ''FOO'' = ''foo''" "lower lib ''Foo'' = ''foo''"
  "lower lib ''Foo '' = ''foo ''" "lower lib ''BAR'' = ''bar''" "lower lib ''bar'' = ''bar''"
  by (simp_all add: lower_def lower_char_def is_ascii_def)

lemma py_in_iff: "py_in x xs \<longleftrightarrow> (\<exists>y \<in> set xs. py_eq y x)"
  by (simp add: py_in_def list_ex_iff)

lemma py_eq_refl_str [simp]: "py_eq (VStr s) (VStr t) \<longleftrightarrow> s = t"
  by simp

text \<open>
  Claim C9.  \<open>factory('choice')\<close> followed by \<open>accept('Foo', ignore_case=True)\<close> gives a
  choice validator whose case-insensitive list holds \<open>foo\<close>; it validates \<open>foo\<close> and
  \<open>FOO\<close> and fails \<open>Foo \<close> (with a trailing blank), with one diagnostic.  Accepted
  without \<open>ignore_case\<close>, \<open>Foo\<close> goes to the case-sensitive list as it is: the validator
  then validates \<open>Foo\<close> and fails \<open>foo\<close> and \<open>FOO\<close>.  A validator holding \<open>Foo\<close> and
  \<open>1\<close> case-sensitively and \<open>bar\<close> case-insensitively validates \<open>Foo\<close>, \<open>1\<close>, \<open>bar\<close> and
  \<open>BAR\<close>, and fails \<open>foo\<close> and \<open>2\<close>.  For every choice validator and every input,
  \<open>validate\<close> returns normally; it returns true, leaving the collector as it was, when
  some member of the case-sensitive list \<open>valid\<close> equals the input, or the input is text
  whose lower-cased form is a member of \<open>valid_ic\<close>, and false with one diagnostic added
  otherwise.  \<open>accept\<close> with \<open>ignore_case\<close> stores text lower-cased, and without it stores
  the value unchanged in \<open>valid\<close>.  The lower-cased form of ASCII text is computed here;
  for any other text it is what the library's \<open>lower()\<close> returns.
\<close>

theorem choice_ignore_case:
  "(case factory ''choice'' of Inl err \<Rightarrow> Inl err
      | Inr r \<Rightarrow> choice_accept lib (VStr ''Foo'') True r)
     = Inr (ChoiceValidator None [] [''foo''])
   \<and> validate lib (ChoiceValidator None [] [''foo'']) (VStr ''foo'') e = Inr (True, e)
   \<and> validate lib (ChoiceValidator None [] [''foo'']) (VStr ''FOO'') e = Inr (True, e)
   \<and> validate lib (ChoiceValidator None [] [''foo'']) (VStr ''Foo '') e
       = Inr (False, add (apostrophe @ ''Foo '' @ apostrophe
                          @ '' is not one of acceptable values: foo'') e)
   \<and> (case factory ''choice'' of Inl err \<Rightarrow> Inl err
        | Inr r \<Rightarrow> choice_accept lib (VStr ''Foo'') False r)
       = Inr (ChoiceValidator None [VStr ''Foo''] [])
   \<and> validate lib (ChoiceValidator None [VStr ''Foo''] []) (VStr ''Foo'') e = Inr (True, e)
   \<and> validate lib (ChoiceValidator None [VStr ''Foo''] []) (VStr ''foo'') e
       = Inr (False, add (apostrophe @ ''foo'' @ apostrophe
                          @ '' is not one of acceptable values: Foo'') e)
   \<and> validate lib (ChoiceValidator None [VStr ''Foo''] []) (VStr ''FOO'') e
       = Inr (False, add (apostrophe @ ''FOO'' @ apostrophe
                          @ '' is not one of acceptable values: Foo'') e)
   \<and> validate lib (ChoiceValidator None [VStr ''Foo'', VInt 1] [''bar'']) (VStr ''Foo'') e
       = Inr (True, e)
   \<and> validate lib (ChoiceValidator None [VStr ''Foo'', VInt 1] [''bar'']) (VInt 1) e
       = Inr (True, e)
   \<and> validate lib (ChoiceValidator None [VStr ''Foo'', VInt 1] [''bar'']) (VStr ''bar'') e
       = Inr (True, e)
   \<and> validate lib (ChoiceValidator None [VStr ''Foo'', VInt 1] [''bar'']) (VStr ''BAR'') e
       = Inr (True, e)
   \<and> (\<exists>e'. validate lib (ChoiceValidator None [VStr ''Foo'', VInt 1] [''bar'']) (VStr ''foo'') e
              = Inr (False, e') \<and> count e' = count e + 1)
   \<and> (\<exists>e'. validate lib (ChoiceValidator None [VStr ''Foo'', VInt 1] [''bar'']) (VInt 2) e
              = Inr (False, e') \<and> count e' = count e + 1)
   \<and> validate lib (ChoiceValidator m valid valid_ic) data e
       = (if (\<exists>x \<in> set valid. py_eq x data) \<or> (\<exists>s. data = VStr s \<and> lower lib s \<in> set valid_ic)
          then Inr (True, e)
          else Inr (False,
                 add (apostrophe @ fmt lib data @ apostrophe
                      @ '' is not one of acceptable values: ''
                      @ join '', '' (sort (map (fmt lib) valid @ valid_ic))) e))
   \<and> choice_accept lib (VStr s) True (ChoiceValidator m valid valid_ic)
       = Inr (ChoiceValidator m valid (valid_ic @ [lower lib s]))
   \<and> choice_accept lib (VStr s) False (ChoiceValidator m valid valid_ic)
       = Inr (ChoiceValidator m (valid @ [VStr s]) valid_ic)
   \<and> lower lib ''Foo'' = ''foo'' \<and> lower lib ''FOO'' = ''foo'' \<and> lower lib ''Foo '' = ''foo ''
   \<and> lower lib s = (if list_all is_ascii s then map lower_char s else unicode_lower lib s)"
proof -
  have general: "validate lib (ChoiceValidator m valid valid_ic) data e
       = (if (\<exists>x \<in> set valid. py_eq x data) \<or> (\<exists>s. data = VStr s \<and> lower lib s \<in> set valid_ic)
          then Inr (True, e)
          else Inr (False,
                 add (apostrophe @ fmt lib data @ apostrophe
                      @ '' is not one of acceptable values: ''
                      @ join '', '' (sort (map (fmt lib) valid @ valid_ic))) e))"
    for m valid valid_ic data
    by (cases data) (auto simp: py_in_iff)
  have acc: "(case factory ''choice'' of Inl err \<Rightarrow> Inl err
                | Inr r \<Rightarrow> choice_accept lib (VStr ''Foo'') b r)
       = Inr (if b then ChoiceValidator None [] [''foo'']
              else ChoiceValidator None [VStr ''Foo''] [])" for b
    by (simp add: factory_def registry_def)
  have ex1: "validate lib (ChoiceValidator None [] [''foo'']) (VStr ''foo'') e = Inr (True, e)"
    "validate lib (ChoiceValidator None [] [''foo'']) (VStr ''FOO'') e = Inr (True, e)"
    "validate lib (ChoiceValidator None [] [''foo'']) (VStr ''Foo '') e
       = Inr (False, add (apostrophe @ ''Foo '' @ apostrophe
                          @ '' is not one of acceptable values: foo'') e)"
    by (simp_all add: py_in_def)
  have ex2: "validate lib (ChoiceValidator None [VStr ''Foo''] []) (VStr ''Foo'') e = Inr (True, e)"
    "validate lib (ChoiceValidator None [VStr ''Foo''] []) (VStr ''foo'') e
       = Inr (False, add (apostrophe @ ''foo'' @ apostrophe
                          @ '' is not one of acceptable values: Foo'') e)"
    "validate lib (ChoiceValidator None [VStr ''Foo''] []) (VStr ''FOO'') e
       = Inr (False, add (apostrophe @ ''FOO'' @ apostrophe
                          @ '' is not one of acceptable values: Foo'') e)"
    by (simp_all add: py_in_def)
  have ex3: "validate lib (ChoiceValidator None [VStr ''Foo'', VInt 1] [''bar'']) (VStr ''Foo'') e
       = Inr (True, e)"
    "validate lib (ChoiceValidator None [VStr ''Foo'', VInt 1] [''bar'']) (VInt 1) e
       = Inr (True, e)"
    "validate lib (ChoiceValidator None [VStr ''Foo'', VInt 1] [''bar'']) (VStr ''bar'') e
       = Inr (True, e)"
    "validate lib (ChoiceValidator None [VStr ''Foo'', VInt 1] [''bar'']) (VStr ''BAR'') e
       = Inr (True, e)"
    by (simp_all add: py_in_def)
  have ex4: "\<exists>e'. validate lib (ChoiceValidator None [VStr ''Foo'', VInt 1] [''bar'']) (VStr ''foo'') e
              = Inr (False, e') \<and> count e' = count e + 1"
    "\<exists>e'. validate lib (ChoiceValidator None [VStr ''Foo'', VInt 1] [''bar'']) (VInt 2) e
              = Inr (False, e') \<and> count e' = count e + 1"
    by (simp_all add: py_in_def count_def add_def)
  have acc2: "choice_accept lib (VStr s) True (ChoiceValidator m valid valid_ic)
       = Inr (ChoiceValidator m valid (valid_ic @ [lower lib s]))"
    "choice_accept lib (VStr s) False (ChoiceValidator m valid valid_ic)
       = Inr (ChoiceValidator m (valid @ [VStr s]) valid_ic)"
    by simp_all
  have low: "lower lib s = (if list_all is_ascii s then map lower_char s else unicode_lower lib s)"
    by (simp add: lower_def)
  from acc [of True] acc [of False] ex1 ex2 ex3 ex4 general acc2 low show ?thesis
    by (simp del: validate.simps choice_accept.simps)
qed

section \<open>Validation only appends diagnostics: the loops and \<open>validate\<close>\<close>

lemma inside_refl [simp]: "inside e e"
  by (simp add: inside_def)

lemma inside_trans: "inside a b \<Longrightarrow> inside b c \<Longrightarrow> inside a c"
  by (auto simp: inside_def)

lemma opened_update:
  assumes "opened e"
  shows "\<exists>e1. path_update_value v e = Inr e1 \<and> inside e e1 \<and> opened e1
               \<and> messages e1 = messages e"
proof -
  from assms obtain n where n: "length (path e) = Suc n" "path_level e = Some (int n)"
    by (cases "path e") (auto simp: opened_def)
  then have "path_update_value v e = Inr (e\<lparr>path := (path e)[n := v]\<rparr>)"
    by (simp add: path_update_value_def list_slot_def)
  moreover have "butlast ((path e)[n := v]) = butlast (path e)"
    using n(1) by (simp add: butlast_list_update)
  ultimately show ?thesis using n by (auto simp: inside_def opened_def)
qed

lemma grows_inside: "opened e \<Longrightarrow> grows e e' \<Longrightarrow> inside e e' \<and> opened e'"
  by (auto simp: grows_def inside_def opened_def)

lemma inside_add: "inside e e' \<Longrightarrow> inside e (add msg e')"
  by (auto simp: inside_def add_def)

lemma opened_add [simp]: "opened (add msg e) = opened e"
  by (simp add: opened_def add_def)

lemma opened_path_add_level [simp]: "opened (path_add_level v e)"
  by (simp add: opened_def path_add_level_def)

lemma close_after_inside:
  assumes "inside (path_add_level v e) e2"
  shows "\<exists>e3. path_remove_level e2 = Inr e3 \<and> grows e e3 \<and> messages e3 = messages e2"
proof -
  let ?n = "length (path e)"
  from assms have len: "length (path e2) = Suc ?n" and lvl: "path_level e2 = Some (int ?n)"
    and bl: "butlast (path e2) = path e"
    and msgs: "\<exists>new. messages e2 = messages e @ new"
    by (auto simp: inside_def path_add_level_def)
  from len have "take ?n (path e2) @ drop (Suc ?n) (path e2) = butlast (path e2)"
    by (simp add: butlast_conv_take)
  with len lvl bl have
    "path_remove_level e2 = Inr (e2\<lparr>path := path e, path_level := Some (int ?n - 1)\<rparr>)"
    by (simp add: path_remove_level_def list_slot_def)
  with msgs show ?thesis by (auto simp: grows_def)
qed

lemma list_items_inside:
  assumes v: "\<And>r d s b s'. r \<in> set rules \<Longrightarrow> v r d s = Inr (b, s') \<Longrightarrow> grows s s'"
    and "opened e"
    and "list_items lib v rules data items e = Inr e'"
  shows "inside e e' \<and> opened e'"
  using assms(2,3)
proof (induction items arbitrary: e)
  case Nil
  then show ?case by simp
next
  case (Cons item rest)
  from opened_update [OF Cons.prems(1)]
  obtain e1 where e1: "path_update_value (''list:'' @ show_nat (py_index data item)) e = Inr e1"
    "inside e e1" "opened e1" by blast
  show ?case
  proof (cases "validate_item lib v item rules e1")
    case (Inl x)
    with e1(1) Cons.prems(2) show ?thesis by simp
  next
    case (Inr p)
    obtain ok e2 where p: "p = (ok, e2)" by (cases p)
    have "grows e1 e2"
      using validate_item_grows [of rules v item lib e1 ok e2] v Inr p by blast
    with e1(3) have in2: "inside e1 e2" "opened e2" by (auto dest: grows_inside)
    from e1(1) Inr p Cons.prems(2) have "list_items lib v rules data rest e2 = Inr e'" by simp
    from Cons.IH [OF in2(2) this] have "inside e2 e'" "opened e'" by simp_all
    with e1(2) in2(1) show ?thesis by (blast intro: inside_trans)
  qed
qed

lemma key_rules_grows:
  assumes v: "\<And>r d s b s'. r \<in> fst ` set kvs \<Longrightarrow> v r d s = Inr (b, s') \<Longrightarrow> grows s s'"
    and "key_rules v key kvs e = Inr (found, e')"
  shows "grows e e'"
  using assms
proof (induction kvs arbitrary: e)
  case Nil
  then show ?case by simp
next
  case (Cons p ps)
  obtain kr vr where p: "p = (kr, vr)" by (cases p)
  have v': "grows s s'" if "r \<in> fst ` set ps" "v r d s = Inr (b, s')" for r d s b s'
    using Cons.prems(1) [of r d s b s'] that by auto
  show ?case
  proof (cases "validateable kr key")
    case (Inl x)
    with Cons.prems(2) p show ?thesis by simp
  next
    case va: (Inr applies)
    show ?thesis
    proof (cases applies)
      case False
      with va Cons.prems(2) p have "key_rules v key ps e = Inr (found, e')" by simp
      from Cons.IH [OF v' this] show ?thesis .
    next
      case True
      note ap = this
      show ?thesis
      proof (cases "v kr key e")
        case (Inl x)
        with va ap Cons.prems(2) p show ?thesis by simp
      next
        case (Inr q)
        obtain ok e1 where q: "q = (ok, e1)" by (cases q)
        have g: "grows e e1" using Cons.prems(1) [of kr key e ok e1] Inr q p by simp
        show ?thesis
        proof (cases ok)
          case True
          with va ap Inr q p Cons.prems(2) have "e' = e1" by simp
          with g show ?thesis by simp
        next
          case False
          with va ap Inr q p Cons.prems(2)
          have "key_rules v key ps e1 = Inr (found, e')" by simp
          from Cons.IH [OF v' this] have "grows e1 e'" .
          with g show ?thesis by (rule grows_trans)
        qed
      qed
    qed
  qed
qed

lemma rules_for_key_grows:
  assumes v: "\<And>r d s b s'. r \<in> fst ` set key_validators \<Longrightarrow> v r d s = Inr (b, s')
                \<Longrightarrow> grows s s'"
    and run: "rules_for_key v any_key key_validators valid key e = Inr (rules, e')"
  shows "grows e e'"
proof (cases "dict_get valid key")
  case (Some rs)
  with run show ?thesis by (simp add: rules_for_key_def)
next
  case None
  with run obtain found e1 where kr: "key_rules v key key_validators e = Inr (found, e1)"
    and e': "e' = e1 \<or> e' = back_out_errors (count e1 - count e) e1"
    by (auto simp: rules_for_key_def Let_def split: sum.splits if_splits)
  from key_rules_grows [OF v kr] have g: "grows e e1" .
  from e' g grows_back_out [OF g] show ?thesis by auto
qed

lemma dict_item_inside:
  assumes v: "\<And>r d s b s'. r \<in> dict_children any_key key_validators valid
                \<Longrightarrow> v r d s = Inr (b, s') \<Longrightarrow> grows s s'"
    and op: "opened e"
    and run: "dict_item lib v reject any_key key_validators valid kv e = Inr e'"
  shows "inside e e' \<and> opened e'"
proof -
  from opened_update [OF op]
  obtain e1 where e1: "path_update_value (''dict:'' @ fmt lib (fst kv)) e = Inr e1"
    "inside e e1" "opened e1" by blast
  show ?thesis
  proof (cases "dict_get reject (fst kv)")
    case (Some msg)
    with run e1(1) obtain line where "e' = add line e1"
      by (auto simp: dict_item_def Let_def split: if_splits)
    with e1 show ?thesis by (simp add: inside_add)
  next
    case None
    show ?thesis
    proof (cases "rules_for_key v any_key key_validators valid (fst kv) e1")
      case (Inl x)
      with run e1(1) None show ?thesis by (simp add: dict_item_def Let_def)
    next
      case (Inr p)
      obtain rules e2 where p: "p = (rules, e2)" by (cases p)
      have vk: "grows s s'" if "r \<in> fst ` set key_validators" "v r d s = Inr (b, s')"
        for r d s b s'
        using v [of r d s b s'] that by (auto simp: dict_children_def)
      from Inr p have rk: "rules_for_key v any_key key_validators valid (fst kv) e1 = Inr (rules, e2)"
        by simp
      have "grows e1 e2" by (rule rules_for_key_grows [OF _ rk]) (blast intro: vk)
      with e1(3) have in2: "inside e1 e2" "opened e2" by (auto dest: grows_inside)
      show ?thesis
      proof (cases "rules = []")
        case True
        with run e1(1) None Inr p obtain line where "e' = add line e2"
          by (auto simp: dict_item_def Let_def)
        with e1(2) in2 show ?thesis by (auto intro: inside_trans inside_add)
      next
        case False
        with run e1(1) None Inr p obtain ok where
          vi: "validate_item lib v (snd kv) rules e2 = Inr (ok, e')"
          by (auto simp: dict_item_def Let_def split: sum.splits)
        have vr: "grows s s'" if "r \<in> set rules" "v r (snd kv) s = Inr (b, s')" for r s b s'
        proof -
          from rules_for_key_children [of v any_key key_validators valid "fst kv" e1 rules e2]
            Inr p that(1)
          have "r \<in> dict_children any_key key_validators valid" by auto
          from v [OF this that(2)] show ?thesis .
        qed
        from validate_item_grows [of rules v "snd kv" lib e2 ok e'] vr vi
        have "grows e2 e'" by blast
        with in2(2) have "inside e2 e'" "opened e'" by (auto dest: grows_inside)
        with e1(2) in2(1) show ?thesis by (blast intro: inside_trans)
      qed
    qed
  qed
qed

lemma dict_items_inside:
  assumes v: "\<And>r d s b s'. r \<in> dict_children any_key key_validators valid
                \<Longrightarrow> v r d s = Inr (b, s') \<Longrightarrow> grows s s'"
    and "opened e"
    and "dict_items lib v reject any_key key_validators valid items e = Inr e'"
  shows "inside e e' \<and> opened e'"
  using assms(2,3)
proof (induction items arbitrary: e)
  case Nil
  then show ?case by simp
next
  case (Cons kv rest)
  show ?case
  proof (cases "dict_item lib v reject any_key key_validators valid kv e")
    case (Inl x)
    with Cons.prems(2) show ?thesis by simp
  next
    case (Inr e1)
    from dict_item_inside [OF v Cons.prems(1) Inr] have in1: "inside e e1" "opened e1"
      by simp_all
    from Inr Cons.prems(2)
    have "dict_items lib v reject any_key key_validators valid rest e1 = Inr e'" by simp
    from Cons.IH [OF in1(2) this] in1(1) show ?thesis by (blast intro: inside_trans)
  qed
qed

lemma check_required_grows: "grows e (check_required required_keys data e)"
proof (induction required_keys arbitrary: e)
  case Nil
  show ?case by simp
next
  case (Cons k ks)
  show ?case
  proof (cases "has_key data (VStr k)")
    case True
    with Cons.IH [of e] show ?thesis by simp
  next
    case False
    let ?e1 = "add (''key '' @ apostrophe @ k @ apostrophe @ '' required'') e"
    have "grows ?e1 (check_required ks data ?e1)" by (rule Cons.IH)
    with False show ?thesis by (simp add: grows_trans [OF grows_add])
  qed
qed

lemma regexp_match_validate_grows:
  "regexp_match_validate lib m regexps reject_regexps data e = Inr (b, e')
     \<Longrightarrow> grows e e' \<and> (\<not> b \<longrightarrow> count e < count e')"
  by (auto simp: regexp_match_validate_def split: pyval.splits if_splits)

lemma list_validate_grows:
  assumes v: "\<And>r d s b s'. r \<in> set valid \<Longrightarrow> validate lib r d s = Inr (b, s') \<Longrightarrow> grows s s'"
    and run: "validate lib (ListValidator m valid) data e = Inr (b, e')"
  shows "grows e e' \<and> (\<not> b \<longrightarrow> count e < count e')"
proof (cases "is_list data")
  case False
  with run show ?thesis by (cases data) auto
next
  case True
  then obtain items where data: "data = VList items" by (cases data) auto
  let ?e1 = "path_add_level ''?'' e"
  from run data obtain e2 where
    loop: "list_items lib (validate lib) valid items items ?e1 = Inr e2"
    by (auto simp: Let_def split: sum.splits)
  from list_items_inside [OF v _ loop] have "inside ?e1 e2" by simp
  from close_after_inside [OF this]
  obtain e3 where e3: "path_remove_level e2 = Inr e3" "grows e e3" by blast
  from run data loop e3(1) have res: "e' = e3" "b = (count ?e1 = count e3)"
    by (auto simp: Let_def)
  have "count ?e1 = count e" by (simp add: count_def path_add_level_def)
  with res e3(2) grows_count [OF e3(2)] show ?thesis by auto
qed

lemma dict_validate_grows:
  assumes v: "\<And>r d s b s'. r \<in> dict_children any_key key_validators valid
                \<Longrightarrow> validate lib r d s = Inr (b, s') \<Longrightarrow> grows s s'"
    and run: "validate lib (DictValidator m reject any_key required_keys key_validators valid)
                data e = Inr (b, e')"
  shows "grows e e' \<and> (\<not> b \<longrightarrow> count e < count e')"
proof (cases "is_dict data")
  case False
  with run show ?thesis by (cases data) auto
next
  case True
  then obtain items where data: "data = VDict items" by (cases data) auto
  let ?e1 = "path_add_level ''?'' e"
  from run data obtain e2 where
    loop: "dict_items lib (validate lib) reject any_key key_validators valid items ?e1 = Inr e2"
    by (auto simp: Let_def split: sum.splits)
  from dict_items_inside [OF v _ loop] have "inside ?e1 e2" by simp
  from close_after_inside [OF this]
  obtain e3 where e3: "path_remove_level e2 = Inr e3" "grows e e3" by blast
  let ?e4 = "check_required required_keys items e3"
  from run data loop e3(1) have res: "e' = ?e4" "b = (count e = count ?e4)"
    by (auto simp: Let_def)
  have g: "grows e ?e4" by (rule grows_trans [OF e3(2) check_required_grows])
  with res grows_count [OF g] show ?thesis by auto
qed

lemma validate_grows_aux:
  "validate lib r d e = Inr (b, e')
     \<Longrightarrow> grows e e' \<and> (\<not> b \<longrightarrow> name r \<noteq> ''equals'' \<longrightarrow> count e < count e')"
proof (induction r arbitrary: d e b e' rule: measure_induct_rule [of size])
  case (less r)
  have IH: "grows s s'" if "size r' < size r" "validate lib r' d' s = Inr (b', s')"
    for r' d' s b' s'
    using less.IH [OF that] by simp
  show ?case
  proof (cases r)
    case (RootValidator m valid)
    have "grows s s'" if "r' \<in> set valid" "validate lib r' d s = Inr (b', s')" for r' s b' s'
      using IH [of r' d s b' s'] list_child_size [OF that(1)] that(2) RootValidator by simp
    from validate_item_grows [of valid "validate lib" d lib e b e', OF this]
      less.prems RootValidator
    show ?thesis by simp
  next
    case (ListValidator m valid)
    have "grows s s'" if "r' \<in> set valid" "validate lib r' d' s = Inr (b', s')"
      for r' d' s b' s'
      using IH [of r' d' s b' s'] list_child_size [OF that(1)] that(2) ListValidator by simp
    from list_validate_grows [of valid lib m d e b e', OF this] less.prems ListValidator
    show ?thesis by simp
  next
    case (DictValidator m reject any_key required_keys key_validators valid)
    have "grows s s'"
      if "r' \<in> dict_children any_key key_validators valid" "validate lib r' d' s = Inr (b', s')"
      for r' d' s b' s'
      using IH [of r' d' s b' s']
        dict_children_size [OF that(1), of m reject required_keys] that(2) DictValidator
      by simp
    from dict_validate_grows [of any_key key_validators valid lib m reject required_keys d e b e',
        OF this] less.prems DictValidator
    show ?thesis by simp
  next
    case (RegexpMatchValidator m regexps reject_regexps)
    with less.prems regexp_match_validate_grows [of lib m regexps reject_regexps d e b e']
    show ?thesis by simp
  next
    case (IntervalValidator m regexps reject_regexps)
    with less.prems regexp_match_validate_grows [of lib m regexps reject_regexps d e b e']
    show ?thesis by simp
  qed (use less.prems in \<open>auto simp: Let_def split: pyval.splits if_splits option.splits\<close>)
qed

lemma validate_grows: "validate lib r d e = Inr (b, e') \<Longrightarrow> grows e e'"
  by (simp add: validate_grows_aux)

section \<open>A failed \<open>validate\<close> and its diagnostics\<close>




section \<open>\<open>validate\<close> and \<open>validateable\<close>\<close>




section \<open>Alternative selection: the first success wins\<close>

text \<open>
  A run of failed candidates: \<open>es\<close> lists the collector before the first candidate of
  \<open>pre\<close>, after it, and so on.  Candidate \<open>i\<close> either does not apply to the item, and
  the collector stays as it is, or applies and its \<open>validate\<close> returns false, leaving the
  next collector of the list.
\<close>

lemma failed_candidates_skipped:
  assumes "length es = Suc (length pre)"
    and "\<forall>i < length pre.
           (validateable (pre ! i) item = Inr False \<and> es ! Suc i = es ! i)
           \<or> (validateable (pre ! i) item = Inr True
               \<and> validate lib (pre ! i) item (es ! i) = Inr (False, es ! Suc i))"
  shows "try_rules (validate lib) item (pre @ rest) c (es ! 0)
           = try_rules (validate lib) item rest c (last es)
         \<and> grows (es ! 0) (last es)"
  using assms
proof (induction pre arbitrary: es)
  case Nil
  then obtain e0 where "es = [e0]" by (cases es) auto
  then show ?case by simp
next
  case (Cons q qs)
  from Cons.prems(1) obtain e0 es' where es: "es = e0 # es'" and len: "length es' = Suc (length qs)"
    by (cases es) auto
  from len obtain e1 es'' where es': "es' = e1 # es''" by (cases es') auto
  have steps: "\<forall>i < length qs.
           (validateable (qs ! i) item = Inr False \<and> es' ! Suc i = es' ! i)
           \<or> (validateable (qs ! i) item = Inr True
               \<and> validate lib (qs ! i) item (es' ! i) = Inr (False, es' ! Suc i))"
  proof (intro allI impI)
    fix i assume "i < length qs"
    with Cons.prems(2) [rule_format, of "Suc i"] es
    show "(validateable (qs ! i) item = Inr False \<and> es' ! Suc i = es' ! i)
           \<or> (validateable (qs ! i) item = Inr True
               \<and> validate lib (qs ! i) item (es' ! i) = Inr (False, es' ! Suc i))"
      by simp
  qed
  from Cons.IH [OF len steps]
  have IH: "try_rules (validate lib) item (qs @ rest) c e1
              = try_rules (validate lib) item rest c (last es')"
    and g: "grows e1 (last es')"
    using es' by simp_all
  have last: "last es = last es'" using es es' by simp
  from Cons.prems(2) [rule_format, of 0] es es'
  consider "validateable q item = Inr False" "e1 = e0"
    | "validateable q item = Inr True" "validate lib q item e0 = Inr (False, e1)"
    by auto
  then show ?case
  proof cases
    case 1
    with IH g es last show ?thesis by simp
  next
    case 2
    from validate_grows [OF 2(2)] g have "grows e0 (last es')" by (rule grows_trans)
    with 2 IH es last show ?thesis by simp
  qed
qed

text \<open>
  Claim C1.  Take any item, any candidates \<open>pre @ r # post\<close> and any collector \<open>e\<close>.
  Suppose that every candidate of \<open>pre\<close> either does not apply to the item or applies
  and fails to validate it (\<open>es\<close> lists the collectors in between, starting at \<open>e\<close>),
  and that \<open>r\<close> applies to the item and validates it, leaving the collector \<open>e2\<close>.  Then
  \<open>validate_item\<close> returns true, whatever the candidates \<open>post\<close> after \<open>r\<close> are (they
  are not run), and the collector it leaves is \<open>e2\<close> cut back to the count recorded on
  entry: it holds exactly the messages of \<open>e\<close>, so the diagnostic count is the one
  before the call, and the path is the one before the call.
\<close>

theorem validate_item_first_success:
  assumes "length es = Suc (length pre)" and "es ! 0 = e"
    and "\<forall>i < length pre.
           (validateable (pre ! i) item = Inr False \<and> es ! Suc i = es ! i)
           \<or> (validateable (pre ! i) item = Inr True
               \<and> validate lib (pre ! i) item (es ! i) = Inr (False, es ! Suc i))"
    and "validateable r item = Inr True"
    and "validate lib r item (last es) = Inr (True, e2)"
  shows "validate_item lib (validate lib) item (pre @ r # post) e
           = Inr (True, back_out_errors (count e2 - count e) e2)
         \<and> messages (back_out_errors (count e2 - count e) e2) = messages e
         \<and> count (back_out_errors (count e2 - count e) e2) = count e
         \<and> path (back_out_errors (count e2 - count e) e2) = path e"
proof -
  from failed_candidates_skipped [OF assms(1,3), of "r # post" "count e"] assms(2)
  have run: "try_rules (validate lib) item (pre @ r # post) (count e) e
               = try_rules (validate lib) item (r # post) (count e) (last es)"
    and g1: "grows e (last es)" by simp_all
  from g1 validate_grows [OF assms(5)] have g: "grows e e2" by (rule grows_trans)
  from run assms(4,5)
  have "validate_item lib (validate lib) item (pre @ r # post) e
          = Inr (True, back_out_errors (count e2 - count e) e2)"
    by (simp add: validate_item_def)
  moreover from back_out_to_start [OF g] g
  have "messages (back_out_errors (count e2 - count e) e2) = messages e"
    "path (back_out_errors (count e2 - count e) e2) = path e"
    by (simp_all add: grows_def)
  ultimately show ?thesis by (simp add: count_def)
qed

theorem validate_item_first_success_witness:
  "\<forall>lib.
     length [\<lparr>messages = [''m''], path = [''list:0''], path_level = Some 0\<rparr>,
             \<lparr>messages = [''m''], path = [''list:0''], path_level = Some 0\<rparr>,
             \<lparr>messages = [''m'', ''[/list:0] '' @ apostrophe @ ''2'' @ apostrophe
                                  @ '' is not one of acceptable values: 1''],
               path = [''list:0''], path_level = Some 0\<rparr>]
       = Suc (length [TextValidator None, ChoiceValidator None [VInt 1] []])
     \<and> validateable (TextValidator None) (VInt 2) = Inr False
     \<and> validateable (ChoiceValidator None [VInt 1] []) (VInt 2) = Inr True
     \<and> validate lib (ChoiceValidator None [VInt 1] []) (VInt 2)
           \<lparr>messages = [''m''], path = [''list:0''], path_level = Some 0\<rparr>
         = Inr (False,
             \<lparr>messages = [''m'', ''[/list:0] '' @ apostrophe @ ''2'' @ apostrophe
                                  @ '' is not one of acceptable values: 1''],
               path = [''list:0''], path_level = Some 0\<rparr>)
     \<and> validateable (IntegerValidator None) (VInt 2) = Inr True
     \<and> validate lib (IntegerValidator None) (VInt 2)
           \<lparr>messages = [''m'', ''[/list:0] '' @ apostrophe @ ''2'' @ apostrophe
                                @ '' is not one of acceptable values: 1''],
             path = [''list:0''], path_level = Some 0\<rparr>
         = Inr (True,
             \<lparr>messages = [''m'', ''[/list:0] '' @ apostrophe @ ''2'' @ apostrophe
                                  @ '' is not one of acceptable values: 1''],
               path = [''list:0''], path_level = Some 0\<rparr>)
     \<and> validate_item lib (validate lib) (VInt 2)
           ([TextValidator None, ChoiceValidator None [VInt 1] []]
            @ IntegerValidator None # [Validator None, TextValidator None])
           \<lparr>messages = [''m''], path = [''list:0''], path_level = Some 0\<rparr>
         = Inr (True, \<lparr>messages = [''m''], path = [''list:0''], path_level = Some 0\<rparr>)"
proof
  fix lib
  let ?e = "\<lparr>messages = [''m''], path = [''list:0''], path_level = Some 0\<rparr>"
  let ?e1 = "\<lparr>messages = [''m'', ''[/list:0] '' @ apostrophe @ ''2'' @ apostrophe
                                  @ '' is not one of acceptable values: 1''],
               path = [''list:0''], path_level = Some 0\<rparr>"
  show "length [?e, ?e, ?e1] = Suc (length [TextValidator None, ChoiceValidator None [VInt 1] []])
     \<and> validateable (TextValidator None) (VInt 2) = Inr False
     \<and> validateable (ChoiceValidator None [VInt 1] []) (VInt 2) = Inr True
     \<and> validate lib (ChoiceValidator None [VInt 1] []) (VInt 2) ?e = Inr (False, ?e1)
     \<and> validateable (IntegerValidator None) (VInt 2) = Inr True
     \<and> validate lib (IntegerValidator None) (VInt 2) ?e1 = Inr (True, ?e1)
     \<and> validate_item lib (validate lib) (VInt 2)
           ([TextValidator None, ChoiceValidator None [VInt 1] []]
            @ IntegerValidator None # [Validator None, TextValidator None]) ?e
         = Inr (True, ?e)"
    using validate_item_first_success
            [of "[?e, ?e, ?e1]" "[TextValidator None, ChoiceValidator None [VInt 1] []]" ?e
                "VInt 2" lib "IntegerValidator None" ?e1 "[Validator None, TextValidator None]"]
    by (simp add: less_Suc_eq py_in_def add_def count_def show_int_def back_out_errors_def
          del_from_def)
qed

end
